theory Spec2Isabelle
  imports Main "HOL-Library.Sublist"
begin

section \<open>Shared data of the log platform\<close>

text \<open>
  The enumeration \<open>LogLevel\<close> of \<open>vs/platform/log/common/log\<close>. Its declaration is not
  among the sources at hand; \<open>stringifyLogLevel\<close> names five of its members and the
  specification names the sixth, \<open>Off\<close>.
\<close>

datatype LogLevel = Off | Trace | Debug | Info | Warning | Error

text \<open>
  A resource is identified by its path. JavaScript strings are modelled as lists of
  characters, so \<open>length\<close> is the \<open>.length\<close> of the source.
\<close>

type_synonym URI = string

text \<open>
  The result codes of \<open>vs/platform/files/common/files\<close>. \<open>FileLogger\<close> inspects only
  \<open>FILE_MODIFIED_SINCE\<close>; an error that is no \<open>FileOperationError\<close> has no
  \<open>fileOperationResult\<close> property at all.
\<close>

datatype FileOperationResult =
    FILE_IS_DIRECTORY
  | FILE_NOT_FOUND
  | FILE_NOT_MODIFIED_SINCE
  | FILE_MODIFIED_SINCE
  | FILE_MOVE_CONFLICT
  | FILE_WRITE_LOCKED
  | FILE_PERMISSION_DENIED
  | FILE_TOO_LARGE
  | FILE_INVALID_PATH
  | FILE_NOT_DIRECTORY
  | FILE_OTHER_ERROR

datatype error = FileOperationError FileOperationResult | OtherError string

fun fileOperationResult :: "error \<Rightarrow> FileOperationResult option" where
  "fileOperationResult (FileOperationError r) = Some r"
| "fileOperationResult (OtherError _) = None"

text \<open>
  A registered logger as the channel transports it: its resource and whether it is hidden
  (\<open>ILoggerResource\<close> of \<open>vs/platform/log/common/log\<close>).
\<close>

record ILoggerResource =
  resource :: URI
  hidden :: bool

text \<open>A promise is pending, fulfilled or rejected with the error thrown.\<close>

datatype promise = Pending | Fulfilled | Rejected error


section \<open>The file service as \<open>FileLogger\<close> consumes it\<close>

text \<open>
  \<open>IFileService\<close> is an external collaborator. Each operation takes the state of the
  storage and returns its result (\<open>Inl\<close> the error thrown) with the state afterwards;
  nothing is assumed about what an operation does.
\<close>

record 's IFileService =
  createFile :: "URI \<Rightarrow> 's \<Rightarrow> (error + unit) \<times> 's"
  readFile :: "URI \<Rightarrow> 's \<Rightarrow> (error + string) \<times> 's"
  writeFile :: "URI \<Rightarrow> string \<Rightarrow> 's \<Rightarrow> (error + unit) \<times> 's"

text \<open>
  Modelled from the spec: the storage collaborator, which is not among the sources, as an
  in-memory store of whole files. Creating a resource that exists fails with
  \<open>FILE_MODIFIED_SINCE\<close> (the benign outcome of section 6), otherwise it creates the
  empty file; reading a missing resource fails with \<open>FILE_NOT_FOUND\<close>; writing replaces
  the whole content and creates the resource when it is missing.
\<close>

definition mem_createFile :: "URI \<Rightarrow> (URI \<rightharpoonup> string) \<Rightarrow> (error + unit) \<times> (URI \<rightharpoonup> string)" where
  "mem_createFile r s =
     (case s r of
        Some _ \<Rightarrow> (Inl (FileOperationError FILE_MODIFIED_SINCE), s)
      | None \<Rightarrow> (Inr (), s(r \<mapsto> [])))"

definition mem_readFile :: "URI \<Rightarrow> (URI \<rightharpoonup> string) \<Rightarrow> (error + string) \<times> (URI \<rightharpoonup> string)" where
  "mem_readFile r s =
     (case s r of
        None \<Rightarrow> (Inl (FileOperationError FILE_NOT_FOUND), s)
      | Some c \<Rightarrow> (Inr c, s))"

definition mem_writeFile :: "URI \<Rightarrow> string \<Rightarrow> (URI \<rightharpoonup> string) \<Rightarrow> (error + unit) \<times> (URI \<rightharpoonup> string)" where
  "mem_writeFile r c s = (Inr (), s(r \<mapsto> c))"

definition mem_service :: "(URI \<rightharpoonup> string) IFileService" where
  "mem_service =
     \<lparr> createFile = mem_createFile, readFile = mem_readFile, writeFile = mem_writeFile \<rparr>"


section \<open>Helpers of \<open>FileLogger\<close> that the sources import\<close>

text \<open>
  Modelled from the spec: \<open>dirname\<close>, \<open>basename\<close> and \<open>joinPath\<close> of
  \<open>vs/base/common/resources\<close>, on paths separated by \<open>/\<close>, so that a backup is named
  \<open><dirname>/<basename>_<slot>\<close>.
\<close>

definition basename :: "URI \<Rightarrow> string" where
  "basename r = rev (takeWhile (\<lambda>c. c \<noteq> CHR ''/'') (rev r))"

definition dirname :: "URI \<Rightarrow> URI" where
  "dirname r = rev (drop 1 (dropWhile (\<lambda>c. c \<noteq> CHR ''/'') (rev r)))"

definition joinPath :: "URI \<Rightarrow> string \<Rightarrow> URI" where
  "joinPath d n = d @ ''/'' @ n"

text \<open>
  Modelled from the spec: \<open>ByteSize.MB\<close> of \<open>vs/platform/files/common/files\<close>; the
  ceiling of the specification is 5 MiB.
\<close>

definition ByteSize_MB :: nat where
  "ByteSize_MB = 1024 * 1024"

definition MAX_FILE_SIZE :: nat where
  "MAX_FILE_SIZE = 5 * ByteSize_MB"

text \<open>
  A template literal renders a non-negative integer in decimal, without padding.
\<close>

definition digit_char :: "nat \<Rightarrow> char" where
  "digit_char d =
     (if d = 0 then CHR ''0'' else if d = 1 then CHR ''1'' else if d = 2 then CHR ''2''
      else if d = 3 then CHR ''3'' else if d = 4 then CHR ''4'' else if d = 5 then CHR ''5''
      else if d = 6 then CHR ''6'' else if d = 7 then CHR ''7'' else if d = 8 then CHR ''8''
      else CHR ''9'')"

fun string_of_nat :: "nat \<Rightarrow> string" where
  "string_of_nat n =
     (if n < 10 then [digit_char n] else string_of_nat (n div 10) @ [digit_char (n mod 10)])"

declare string_of_nat.simps [simp del]

text \<open>
  What \<open>new Date()\<close> answers to the getters that \<open>getCurrentTimestamp\<close> calls.
  \<open>getMonth\<close> counts from 0.
\<close>

record Date =
  getFullYear :: nat
  getMonth :: nat
  getDate :: nat
  getHours :: nat
  getMinutes :: nat
  getSeconds :: nat
  getMilliseconds :: nat


section \<open>\<open>FileLogger\<close>\<close>

text \<open>
  The fields of the class, with the outstanding tasks of its \<open>Queue\<close> (the level and
  message each closure captured) and the state of the storage it writes to.
\<close>

record 's FileLogger =
  resource :: URI
  donotUseFormatters :: bool
  backupIndex :: nat
  initializePromise :: promise
  queue :: "(LogLevel \<times> string) list"
  fs :: 's

text \<open>
  The constructor: the backup index starts at 1, the queue is empty and
  \<open>initialize()\<close> has been called but has not settled.
\<close>

definition FileLogger_new :: "URI \<Rightarrow> bool \<Rightarrow> 's \<Rightarrow> 's FileLogger" where
  "FileLogger_new r raw s =
     \<lparr> resource = r, donotUseFormatters = raw, backupIndex = 1,
       initializePromise = Pending, queue = [], fs = s \<rparr>"

text \<open>\<open>initialize\<close>: only a failure with \<open>FILE_MODIFIED_SINCE\<close> is caught and dropped.\<close>

definition initialize :: "'s IFileService \<Rightarrow> URI \<Rightarrow> 's \<Rightarrow> (error + unit) \<times> 's" where
  "initialize svc r s =
     (case createFile svc r s of
        (Inr _, s') \<Rightarrow> (Inr (), s')
      | (Inl e, s') \<Rightarrow>
          if fileOperationResult e \<noteq> Some FILE_MODIFIED_SINCE then (Inl e, s')
          else (Inr (), s'))"

definition toTwoDigits :: "nat \<Rightarrow> string" where
  "toTwoDigits v = (if v < 10 then ''0'' @ string_of_nat v else string_of_nat v)"

definition toThreeDigits :: "nat \<Rightarrow> string" where
  "toThreeDigits v =
     (if v < 10 then ''00'' @ string_of_nat v
      else if v < 100 then ''0'' @ string_of_nat v
      else string_of_nat v)"

definition getCurrentTimestamp :: "Date \<Rightarrow> string" where
  "getCurrentTimestamp currentTime =
     string_of_nat (getFullYear currentTime) @ ''-'' @
     toTwoDigits (getMonth currentTime + 1) @ ''-'' @
     toTwoDigits (getDate currentTime) @ '' '' @
     toTwoDigits (getHours currentTime) @ '':'' @
     toTwoDigits (getMinutes currentTime) @ '':'' @
     toTwoDigits (getSeconds currentTime) @ ''.'' @
     toThreeDigits (getMilliseconds currentTime)"

text \<open>
  \<open>getBackupResource\<close>: an index above 5 is reset to 1, the name is built from the
  index, and the index is incremented afterwards.
\<close>

definition getBackupResource :: "'s FileLogger \<Rightarrow> URI \<times> 's FileLogger" where
  "getBackupResource L =
     (let i = (if backupIndex L > 5 then 1 else backupIndex L)
      in (joinPath (dirname (resource L)) (basename (resource L) @ ''_'' @ string_of_nat i),
          L\<lparr>backupIndex := i + 1\<rparr>))"

text \<open>\<open>loadContent\<close>: any failure of the read yields the empty string.\<close>

definition loadContent :: "'s IFileService \<Rightarrow> 's FileLogger \<Rightarrow> string \<times> 's FileLogger" where
  "loadContent svc L =
     (case readFile svc (resource L) (fs L) of
        (Inr c, s') \<Rightarrow> (c, L\<lparr>fs := s'\<rparr>)
      | (Inl e, s') \<Rightarrow> ([], L\<lparr>fs := s'\<rparr>))"

fun stringifyLogLevel :: "LogLevel \<Rightarrow> string" where
  "stringifyLogLevel Debug = ''debug''"
| "stringifyLogLevel Error = ''error''"
| "stringifyLogLevel Info = ''info''"
| "stringifyLogLevel Trace = ''trace''"
| "stringifyLogLevel Warning = ''warning''"
| "stringifyLogLevel Off = []"

text \<open>What one task appends to the content it holds (lines 55 to 59).\<close>

definition entry :: "bool \<Rightarrow> Date \<Rightarrow> LogLevel \<Rightarrow> string \<Rightarrow> string" where
  "entry raw now level message =
     (if raw then message
      else getCurrentTimestamp now @ '' ['' @ stringifyLogLevel level @ ''] '' @ message @
           [CHR 0x0A])"

text \<open>
  The rotation of lines 51 to 54, for a ceiling \<open>lim\<close>: content longer than the
  ceiling is written to the backup resource and dropped. A failing backup write throws,
  after \<open>getBackupResource\<close> has advanced the index.
\<close>

definition rotate ::
  "'s IFileService \<Rightarrow> nat \<Rightarrow> string \<Rightarrow> 's FileLogger \<Rightarrow> error \<times> 's FileLogger + string \<times> 's FileLogger" where
  "rotate svc lim content L =
     (if length content > lim then
        (case getBackupResource L of
           (backup, L1) \<Rightarrow>
             (case writeFile svc backup content (fs L1) of
                (Inl e, s') \<Rightarrow> Inl (e, L1\<lparr>fs := s'\<rparr>)
              | (Inr _, s') \<Rightarrow> Inr ([], L1\<lparr>fs := s'\<rparr>)))
      else Inr (content, L))"

text \<open>
  The task that \<open>log\<close> queues, run at the time \<open>now\<close>. It does not get past
  \<open>await this.initializePromise\<close> while the promise is pending (\<open>None\<close>); a rejected
  promise rejects the task with the same error before anything is read or written.
\<close>

definition log_task ::
  "'s IFileService \<Rightarrow> nat \<Rightarrow> Date \<Rightarrow> LogLevel \<Rightarrow> string \<Rightarrow> 's FileLogger \<Rightarrow>
     ((error + unit) \<times> 's FileLogger) option" where
  "log_task svc lim now level message L =
     (case initializePromise L of
        Pending \<Rightarrow> None
      | Rejected e \<Rightarrow> Some (Inl e, L)
      | Fulfilled \<Rightarrow>
          (case loadContent svc L of
             (content, L1) \<Rightarrow>
               (case rotate svc lim content L1 of
                  Inl (e, L2) \<Rightarrow> Some (Inl e, L2)
                | Inr (content', L2) \<Rightarrow>
                    (case writeFile svc (resource L2)
                            (content' @ entry (donotUseFormatters L2) now level message) (fs L2) of
                       (res, s') \<Rightarrow> Some (res, L2\<lparr>fs := s'\<rparr>)))))"

text \<open>
  Modelled from the spec: \<open>Queue\<close> of \<open>vs/base/common/async\<close>, which is not among the
  sources. Tasks of one queue run strictly one at a time, in submission order, and a
  task that fails does not stop the tasks behind it.

  An event of the loop is a call of \<open>log\<close>, the settling of \<open>initialize()\<close>, or the
  queue running its oldest task at a given time. \<open>log\<close> only appends a task and drops
  the promise of its result. A task is run whole: once \<open>initializePromise\<close> has settled
  nothing but the task itself touches the fields or the storage, and a \<open>log\<close> arriving
  in between only lengthens the queue. While the promise is pending the oldest task
  stays where it is.
\<close>

datatype event = Log LogLevel string | InitSettles | Run Date

definition log :: "LogLevel \<Rightarrow> string \<Rightarrow> 's FileLogger \<Rightarrow> 's FileLogger" where
  "log level message L = L\<lparr>queue := queue L @ [(level, message)]\<rparr>"

definition settle :: "'s IFileService \<Rightarrow> 's FileLogger \<Rightarrow> 's FileLogger" where
  "settle svc L =
     (case initializePromise L of
        Pending \<Rightarrow>
          (case initialize svc (resource L) (fs L) of
             (Inr _, s') \<Rightarrow> L\<lparr>initializePromise := Fulfilled, fs := s'\<rparr>
           | (Inl e, s') \<Rightarrow> L\<lparr>initializePromise := Rejected e, fs := s'\<rparr>)
      | _ \<Rightarrow> L)"

definition run_next :: "'s IFileService \<Rightarrow> nat \<Rightarrow> Date \<Rightarrow> 's FileLogger \<Rightarrow> 's FileLogger" where
  "run_next svc lim now L =
     (case queue L of
        [] \<Rightarrow> L
      | (level, message) # rest \<Rightarrow>
          (case log_task svc lim now level message L of
             None \<Rightarrow> L
           | Some (res, L') \<Rightarrow> L'\<lparr>queue := rest\<rparr>))"

fun step :: "'s IFileService \<Rightarrow> nat \<Rightarrow> 's FileLogger \<Rightarrow> event \<Rightarrow> 's FileLogger" where
  "step svc lim L (Log level message) = log level message L"
| "step svc lim L InitSettles = settle svc L"
| "step svc lim L (Run now) = run_next svc lim now L"

definition run :: "'s IFileService \<Rightarrow> nat \<Rightarrow> event list \<Rightarrow> 's FileLogger \<Rightarrow> 's FileLogger" where
  "run svc lim es L = foldl (step svc lim) L es"

text \<open>The messages submitted by a schedule and the clock readings of its runs, in order.\<close>

fun submitted :: "event list \<Rightarrow> (LogLevel \<times> string) list" where
  "submitted [] = []"
| "submitted (Log level message # es) = (level, message) # submitted es"
| "submitted (_ # es) = submitted es"

fun readings :: "event list \<Rightarrow> Date list" where
  "readings [] = []"
| "readings (Run now # es) = now # readings es"
| "readings (_ # es) = readings es"

text \<open>
  Observations used to state the order of the entries: the content of a resource in the
  in-memory store (empty when it is missing), and the text that a run of tasks appends
  for given clock readings and messages.
\<close>

definition content_of :: "(URI \<rightharpoonup> string) \<Rightarrow> URI \<Rightarrow> string" where
  "content_of s r = (case s r of None \<Rightarrow> [] | Some c \<Rightarrow> c)"

definition rendered :: "bool \<Rightarrow> Date list \<Rightarrow> (LogLevel \<times> string) list \<Rightarrow> string" where
  "rendered raw ds ms =
     concat (map (\<lambda>(d, level, message). entry raw d level message) (zip ds ms))"

text \<open>
  The texts that the primary file can hold once the tasks of the messages \<open>ms\<close> have run
  at the readings \<open>ds\<close>: the prior content followed by all the entries, when no task
  rotated, or the entries from some task on, when that task was the last one to rotate.
\<close>

definition stored_texts ::
  "string \<Rightarrow> bool \<Rightarrow> Date list \<Rightarrow> (LogLevel \<times> string) list \<Rightarrow> string list" where
  "stored_texts prior raw ds ms =
     (prior @ rendered raw ds ms) #
     map (\<lambda>j. rendered raw (drop j ds) (drop j ms)) [0..<length ms]"

text \<open>
  The invariant of the loop on the in-memory store: the messages submitted so far are
  those whose tasks have run followed by the queue, and once \<open>initialize()\<close> has
  settled the primary file holds one of the texts above, which is a suffix of the prior
  content followed by the entries of the tasks that ran, and all of it while that is
  within the ceiling.
\<close>

definition in_order ::
  "nat \<Rightarrow> (URI \<rightharpoonup> string) \<Rightarrow> (LogLevel \<times> string) list \<Rightarrow> Date list \<Rightarrow>
     (URI \<rightharpoonup> string) FileLogger \<Rightarrow> bool" where
  "in_order lim files ms ts L \<longleftrightarrow>
     (\<exists>ds past. ms = past @ queue L \<and> length ds = length past \<and> subseq ds ts \<and>
        (case initializePromise L of
           Pending \<Rightarrow> past = [] \<and> fs L = files
         | Fulfilled \<Rightarrow>
             (\<exists>c. fs L (resource L) = Some c \<and>
                  c \<in> set (stored_texts (content_of files (resource L))
                               (donotUseFormatters L) ds past) \<and>
                  suffix c (content_of files (resource L) @
                            rendered (donotUseFormatters L) ds past) \<and>
                  (length (content_of files (resource L) @
                           rendered (donotUseFormatters L) ds past) \<le> lim
                     \<longrightarrow> c = content_of files (resource L) @
                             rendered (donotUseFormatters L) ds past))
         | Rejected e \<Rightarrow> False))"

text \<open>The resources that \<open>n\<close> consecutive calls of \<open>getBackupResource\<close> return.\<close>

fun rotations :: "nat \<Rightarrow> 's FileLogger \<Rightarrow> URI list" where
  "rotations 0 L = []"
| "rotations (Suc n) L = (case getBackupResource L of (backup, L') \<Rightarrow> backup # rotations n L')"

definition backup_name :: "URI \<Rightarrow> nat \<Rightarrow> URI" where
  "backup_name r slot = joinPath (dirname r) (basename r @ ''_'' @ string_of_nat slot)"

text \<open>
  A run of tasks one after the other: each message is logged and its task runs, at the
  given reading, before the next message is logged. \<open>entry_of\<close> is the entry of such a
  message.
\<close>

definition entry_of :: "bool \<Rightarrow> Date \<times> LogLevel \<times> string \<Rightarrow> string" where
  "entry_of raw x = (case x of (now, level, message) \<Rightarrow> entry raw now level message)"

definition log_each :: "(Date \<times> LogLevel \<times> string) list \<Rightarrow> event list" where
  "log_each xs = concat (map (\<lambda>(now, level, message). [Log level message, Run now]) xs)"


section \<open>The channel and its clients\<close>

text \<open>
  \<open>IChannel\<close> is the transport, an external collaborator. What a client does to it is
  the sequence of its \<open>call(command, arg)\<close> invocations; the arguments are the values
  the sources pass. \<open>URI.revive\<close> turns a transported resource back into a \<open>URI\<close>;
  on resources identified by their path it changes nothing.
\<close>

datatype arg =
    Uri URI
  | Level LogLevel
  | Bool bool
  | WindowId "nat option"
  | LoggerResource ILoggerResource
  | LoggerOptions "string option"
  | Messages "(LogLevel \<times> string) list"
  | Undefined

datatype call = Call string "arg list"

definition revive :: "URI \<Rightarrow> URI" where
  "revive r = r"

text \<open>
  Modelled from the spec: the mutation path of \<open>AbstractLoggerService\<close>, the superclass
  of \<open>LoggerChannelClient\<close>, which is not among the sources. Its four mutations are
  taken as transformers of the local directory, whatever its representation \<open>'d\<close>: they
  mutate the directory and do not reach the channel or the overriding methods.
\<close>

record 'd AbstractLoggerService =
  super_registerLogger :: "ILoggerResource \<Rightarrow> 'd \<Rightarrow> 'd"
  super_deregisterLogger :: "URI \<Rightarrow> 'd \<Rightarrow> 'd"
  super_setLogLevel :: "URI \<Rightarrow> LogLevel \<Rightarrow> 'd \<Rightarrow> 'd"
  super_setVisibility :: "URI \<Rightarrow> bool \<Rightarrow> 'd \<Rightarrow> 'd"

record 'd LoggerChannelClient =
  windowId :: "nat option"
  directory :: 'd
  channel :: "call list"

text \<open>The three listeners that the constructor registers (lines 62 to 71).\<close>

datatype remote_event =
    OnDidChangeLogLevel URI LogLevel
  | OnDidChangeVisibility URI bool
  | OnDidChangeLoggers "ILoggerResource list" "ILoggerResource list"

fun on_remote_event ::
  "'d AbstractLoggerService \<Rightarrow> remote_event \<Rightarrow> 'd LoggerChannelClient \<Rightarrow> 'd LoggerChannelClient" where
  "on_remote_event base (OnDidChangeLogLevel r logLevel) C =
     C\<lparr>directory := super_setLogLevel base (revive r) logLevel (directory C)\<rparr>"
| "on_remote_event base (OnDidChangeVisibility r visibility) C =
     C\<lparr>directory := super_setVisibility base (revive r) visibility (directory C)\<rparr>"
| "on_remote_event base (OnDidChangeLoggers added removed) C =
     C\<lparr>directory :=
         foldl (\<lambda>d loggerResource.
                  super_deregisterLogger base (ILoggerResource.resource loggerResource) d)
           (foldl (\<lambda>d loggerResource.
                     super_registerLogger base
                       (loggerResource\<lparr>ILoggerResource.resource :=
                           revive (ILoggerResource.resource loggerResource)\<rparr>) d)
              (directory C) added)
           removed\<rparr>"

text \<open>The four overriding methods (lines 82 to 100).\<close>

definition registerLogger ::
  "'d AbstractLoggerService \<Rightarrow> ILoggerResource \<Rightarrow> 'd LoggerChannelClient \<Rightarrow> 'd LoggerChannelClient" where
  "registerLogger base logger C =
     C\<lparr>directory := super_registerLogger base logger (directory C),
       channel := channel C @ [Call ''registerLogger'' [LoggerResource logger, WindowId (windowId C)]]\<rparr>"

definition deregisterLogger ::
  "'d AbstractLoggerService \<Rightarrow> URI \<Rightarrow> 'd LoggerChannelClient \<Rightarrow> 'd LoggerChannelClient" where
  "deregisterLogger base r C =
     C\<lparr>directory := super_deregisterLogger base r (directory C),
       channel := channel C @ [Call ''deregisterLogger'' [Uri r, WindowId (windowId C)]]\<rparr>"

definition setLogLevel ::
  "'d AbstractLoggerService \<Rightarrow> URI \<Rightarrow> LogLevel \<Rightarrow> 'd LoggerChannelClient \<Rightarrow> 'd LoggerChannelClient" where
  "setLogLevel base r logLevel C =
     C\<lparr>directory := super_setLogLevel base r logLevel (directory C),
       channel := channel C @ [Call ''setLogLevel'' [Uri r, Level logLevel]]\<rparr>"

definition setVisibility ::
  "'d AbstractLoggerService \<Rightarrow> URI \<Rightarrow> bool \<Rightarrow> 'd LoggerChannelClient \<Rightarrow> 'd LoggerChannelClient" where
  "setVisibility base r visibility C =
     C\<lparr>directory := super_setVisibility base r visibility (directory C),
       channel := channel C @ [Call ''setVisibility'' [Uri r, Bool visibility]]\<rparr>"

text \<open>A locally initiated mutation, as a value, and the method it invokes.\<close>

datatype mutation =
    RegisterLogger ILoggerResource
  | DeregisterLogger URI
  | SetLogLevel URI LogLevel
  | SetVisibility URI bool

fun invoke ::
  "'d AbstractLoggerService \<Rightarrow> mutation \<Rightarrow> 'd LoggerChannelClient \<Rightarrow> 'd LoggerChannelClient" where
  "invoke base (RegisterLogger logger) C = registerLogger base logger C"
| "invoke base (DeregisterLogger r) C = deregisterLogger base r C"
| "invoke base (SetLogLevel r logLevel) C = setLogLevel base r logLevel C"
| "invoke base (SetVisibility r visibility) C = setVisibility base r visibility C"

fun super_invoke :: "'d AbstractLoggerService \<Rightarrow> mutation \<Rightarrow> 'd \<Rightarrow> 'd" where
  "super_invoke base (RegisterLogger logger) d = super_registerLogger base logger d"
| "super_invoke base (DeregisterLogger r) d = super_deregisterLogger base r d"
| "super_invoke base (SetLogLevel r logLevel) d = super_setLogLevel base r logLevel d"
| "super_invoke base (SetVisibility r visibility) d = super_setVisibility base r visibility d"

text \<open>The superclass mutations that a remote event stands for, in the order applied.\<close>

fun mutations_of :: "remote_event \<Rightarrow> mutation list" where
  "mutations_of (OnDidChangeLogLevel r logLevel) = [SetLogLevel (revive r) logLevel]"
| "mutations_of (OnDidChangeVisibility r visibility) = [SetVisibility (revive r) visibility]"
| "mutations_of (OnDidChangeLoggers added removed) =
     map (\<lambda>loggerResource.
            RegisterLogger (loggerResource\<lparr>ILoggerResource.resource :=
                              revive (ILoggerResource.resource loggerResource)\<rparr>)) added @
     map (\<lambda>loggerResource. DeregisterLogger (ILoggerResource.resource loggerResource)) removed"

text \<open>The call that forwards a mutation to the responder.\<close>

fun forwarded :: "nat option \<Rightarrow> mutation \<Rightarrow> call" where
  "forwarded w (RegisterLogger logger) = Call ''registerLogger'' [LoggerResource logger, WindowId w]"
| "forwarded w (DeregisterLogger r) = Call ''deregisterLogger'' [Uri r, WindowId w]"
| "forwarded w (SetLogLevel r logLevel) = Call ''setLogLevel'' [Uri r, Level logLevel]"
| "forwarded w (SetVisibility r visibility) = Call ''setVisibility'' [Uri r, Bool visibility]"

text \<open>
  What happens to a client over time: a remote event arrives, or one of the overriding
  methods is called locally.
\<close>

datatype client_event = Remote remote_event | Local mutation

fun client_step ::
  "'d AbstractLoggerService \<Rightarrow> 'd LoggerChannelClient \<Rightarrow> client_event \<Rightarrow> 'd LoggerChannelClient" where
  "client_step base C (Remote ev) = on_remote_event base ev C"
| "client_step base C (Local m) = invoke base m C"

definition client_run ::
  "'d AbstractLoggerService \<Rightarrow> client_event list \<Rightarrow> 'd LoggerChannelClient \<Rightarrow> 'd LoggerChannelClient" where
  "client_run base evs C = foldl (client_step base) C evs"

fun local_mutations :: "client_event list \<Rightarrow> mutation list" where
  "local_mutations [] = []"
| "local_mutations (Local m # evs) = m # local_mutations evs"
| "local_mutations (Remote ev # evs) = local_mutations evs"

fun all_mutations :: "client_event list \<Rightarrow> mutation list" where
  "all_mutations [] = []"
| "all_mutations (Local m # evs) = m # all_mutations evs"
| "all_mutations (Remote ev # evs) = mutations_of ev @ all_mutations evs"


section \<open>The remote proxy \<open>Logger\<close>\<close>

text \<open>
  The fields of the class (\<open>fileURI\<close> is the field \<open>file\<close>) and the calls issued so far
  on its channel.
\<close>

record Logger =
  fileURI :: URI
  isLoggerCreated :: bool
  buffer :: "(LogLevel \<times> string) list"
  calls :: "call list"

text \<open>
  The constructor issues the \<open>createLogger\<close> call on the channel, whose calls so far
  are \<open>ch\<close>; the continuation of that call is \<open>createLogger_then\<close>.
\<close>

definition Logger_new :: "call list \<Rightarrow> URI \<Rightarrow> string option \<Rightarrow> Logger" where
  "Logger_new ch f loggerOptions =
     \<lparr> fileURI = f, isLoggerCreated = False, buffer = [],
       calls = ch @ [Call ''createLogger'' [Uri f, LoggerOptions loggerOptions]] \<rparr>"

definition doLog :: "(LogLevel \<times> string) list \<Rightarrow> Logger \<Rightarrow> Logger" where
  "doLog messages L = L\<lparr>calls := calls L @ [Call ''log'' [Uri (fileURI L), Messages messages]]\<rparr>"

definition createLogger_then :: "Logger \<Rightarrow> Logger" where
  "createLogger_then L = (doLog (buffer L) L)\<lparr>isLoggerCreated := True\<rparr>"

definition Logger_log :: "LogLevel \<Rightarrow> string \<Rightarrow> Logger \<Rightarrow> Logger" where
  "Logger_log level message L =
     (let messages = [(level, message)]
      in if isLoggerCreated L then doLog messages L
         else L\<lparr>buffer := buffer L @ messages\<rparr>)"

text \<open>Logging a list of messages one after the other.\<close>

definition log_all :: "(LogLevel \<times> string) list \<Rightarrow> Logger \<Rightarrow> Logger" where
  "log_all ms L = foldl (\<lambda>L (level, message). Logger_log level message L) L ms"

text \<open>The messages that the \<open>log\<close> calls of a channel carry, in the order of the calls.\<close>

fun delivered :: "call list \<Rightarrow> (LogLevel \<times> string) list" where
  "delivered [] = []"
| "delivered (Call command [Uri f, Messages ms] # cs) =
     (if command = ''log'' then ms @ delivered cs else delivered cs)"
| "delivered (_ # cs) = delivered cs"


section \<open>\<open>FollowerLogService\<close>\<close>

text \<open>
  What the service does, in the order it does it: set the level of the wrapped log
  service, or issue a call on the channel of its parent. The state is the level of the
  wrapped \<open>logService\<close> and what has been done so far.
\<close>

datatype effect = SetLocalLevel LogLevel | ParentCall call

record FollowerLogService =
  logService_level :: LogLevel
  effects :: "effect list"

text \<open>
  Modelled from the spec: \<open>LogService.setLevel\<close>, the superclass method, which is not
  among the sources: it sets the level of the log service that the follower wraps.
\<close>

definition LogService_setLevel :: "LogLevel \<Rightarrow> FollowerLogService \<Rightarrow> FollowerLogService" where
  "LogService_setLevel l F = F\<lparr>logService_level := l, effects := effects F @ [SetLocalLevel l]\<rparr>"

text \<open>\<open>LogLevelChannelClient.setLevel\<close>: one \<open>setLevel\<close> call with the level and the resource.\<close>

definition LogLevelChannelClient_setLevel :: "LogLevel \<Rightarrow> URI option \<Rightarrow> call" where
  "LogLevelChannelClient_setLevel l r =
     Call ''setLevel'' [Level l, (case r of None \<Rightarrow> Undefined | Some u \<Rightarrow> Uri u)]"

definition FollowerLogService_setLevel :: "LogLevel \<Rightarrow> FollowerLogService \<Rightarrow> FollowerLogService" where
  "FollowerLogService_setLevel l F =
     (let F1 = LogService_setLevel l F
      in F1\<lparr>effects := effects F1 @ [ParentCall (LogLevelChannelClient_setLevel l None)]\<rparr>)"

text \<open>
  The listener of the constructor: a level announced by the parent is set on the wrapped
  log service itself.
\<close>

definition parent_onDidChangeLogLevel :: "LogLevel \<Rightarrow> FollowerLogService \<Rightarrow> FollowerLogService" where
  "parent_onDidChangeLogLevel l F = F\<lparr>logService_level := l, effects := effects F @ [SetLocalLevel l]\<rparr>"

text \<open>
  What happens to a follower over time: \<open>setLevel\<close> is called locally, or the parent
  announces a level.
\<close>

datatype follower_event = SetLevel LogLevel | ParentChanged LogLevel

fun follower_step :: "FollowerLogService \<Rightarrow> follower_event \<Rightarrow> FollowerLogService" where
  "follower_step F (SetLevel l) = FollowerLogService_setLevel l F"
| "follower_step F (ParentChanged l) = parent_onDidChangeLogLevel l F"

definition follower_run :: "follower_event list \<Rightarrow> FollowerLogService \<Rightarrow> FollowerLogService" where
  "follower_run evs F = foldl follower_step F evs"

fun effects_of :: "follower_event \<Rightarrow> effect list" where
  "effects_of (SetLevel l) = [SetLocalLevel l, ParentCall (Call ''setLevel'' [Level l, Undefined])]"
| "effects_of (ParentChanged l) = [SetLocalLevel l]"

fun level_of :: "follower_event \<Rightarrow> LogLevel" where
  "level_of (SetLevel l) = l"
| "level_of (ParentChanged l) = l"


section \<open>Lemmas about \<open>FileLogger\<close>\<close>

subsection \<open>Decimal rendering\<close>

lemma string_of_nat_1: "n < 10 \<Longrightarrow> string_of_nat n = [digit_char n]"
  by (simp add: string_of_nat.simps)

lemma string_of_nat_2:
  "10 \<le> n \<Longrightarrow> n < 100 \<Longrightarrow> string_of_nat n = [digit_char (n div 10), digit_char (n mod 10)]"
  by (subst string_of_nat.simps) (simp add: string_of_nat_1)

lemma string_of_nat_3:
  "100 \<le> n \<Longrightarrow> n < 1000 \<Longrightarrow>
   string_of_nat n = [digit_char (n div 100), digit_char (n div 10 mod 10), digit_char (n mod 10)]"
  by (subst string_of_nat.simps) (simp add: string_of_nat_2 div_mult2_eq [symmetric])

lemma string_of_nat_4:
  "1000 \<le> n \<Longrightarrow> n < 10000 \<Longrightarrow>
   string_of_nat n = [digit_char (n div 1000), digit_char (n div 100 mod 10),
                      digit_char (n div 10 mod 10), digit_char (n mod 10)]"
  by (subst string_of_nat.simps) (simp add: string_of_nat_3 div_mult2_eq [symmetric])

lemma toTwoDigits_eq:
  "v < 100 \<Longrightarrow> toTwoDigits v = [digit_char (v div 10), digit_char (v mod 10)]"
  by (cases "v < 10") (simp_all add: toTwoDigits_def string_of_nat_1 string_of_nat_2 digit_char_def)

lemma toThreeDigits_eq:
  "v < 1000 \<Longrightarrow>
   toThreeDigits v = [digit_char (v div 100), digit_char (v div 10 mod 10), digit_char (v mod 10)]"
  by (cases "v < 10"; cases "v < 100")
     (simp_all add: toThreeDigits_def string_of_nat_1 string_of_nat_2 string_of_nat_3 digit_char_def)

subsection \<open>Backup names\<close>

lemma length_dirname_basename:
  "length r \<le> Suc (length (dirname r) + length (basename r))"
proof -
  have "length (takeWhile (\<lambda>c. c \<noteq> CHR ''/'') (rev r)) +
        length (dropWhile (\<lambda>c. c \<noteq> CHR ''/'') (rev r)) = length (rev r)"
    by (metis length_append takeWhile_dropWhile_id)
  then show ?thesis by (simp add: dirname_def basename_def)
qed

lemma backup_neq_resource: "joinPath (dirname r) (basename r @ c # sfx) \<noteq> r"
proof
  assume eq: "joinPath (dirname r) (basename r @ c # sfx) = r"
  have "length r < length (joinPath (dirname r) (basename r @ c # sfx))"
    using length_dirname_basename [of r] by (simp add: joinPath_def)
  with eq show False by simp
qed

lemma backup_name_neq: "backup_name r slot \<noteq> r"
  by (simp add: backup_name_def backup_neq_resource)

lemma getBackupResource_eq:
  "getBackupResource L =
     (backup_name (resource L) (if backupIndex L > 5 then 1 else backupIndex L),
      L\<lparr>backupIndex := Suc (if backupIndex L > 5 then 1 else backupIndex L)\<rparr>)"
  by (simp add: getBackupResource_def backup_name_def Let_def)

lemma getBackupResource_neq: "fst (getBackupResource L) \<noteq> resource L"
  by (simp add: getBackupResource_eq backup_name_neq)

subsection \<open>Tasks and the loop on the in-memory store\<close>

lemma mem_log_task:
  assumes "initializePromise L = Fulfilled"
  shows "log_task mem_service lim now level message L =
     (if length (content_of (fs L) (resource L)) > lim
      then Some (Inr (), (snd (getBackupResource L))
             \<lparr>fs := (fs L)(fst (getBackupResource L) \<mapsto> content_of (fs L) (resource L),
                          resource L \<mapsto> entry (donotUseFormatters L) now level message)\<rparr>)
      else Some (Inr (), L\<lparr>fs := (fs L)(resource L \<mapsto>
             content_of (fs L) (resource L) @ entry (donotUseFormatters L) now level message)\<rparr>))"
  using assms
  by (cases "fs L (resource L)")
     (simp_all add: log_task_def loadContent_def rotate_def mem_service_def mem_readFile_def
        mem_writeFile_def getBackupResource_def Let_def content_of_def)

lemma submitted_append: "submitted (xs @ ys) = submitted xs @ submitted ys"
  by (induction xs rule: submitted.induct) simp_all

lemma readings_append: "readings (xs @ ys) = readings xs @ readings ys"
  by (induction xs rule: readings.induct) simp_all

lemma run_snoc: "run svc lim (es @ [e]) L = step svc lim (run svc lim es L) e"
  by (simp add: run_def)

lemma rendered_snoc:
  "length ds = length ms \<Longrightarrow>
   rendered raw (ds @ [d]) (ms @ [(level, message)]) = rendered raw ds ms @ entry raw d level message"
  by (simp add: rendered_def)

lemma stored_texts_iff:
  "c \<in> set (stored_texts prior raw ds ms) \<longleftrightarrow>
     c = prior @ rendered raw ds ms \<or>
     (\<exists>j<length ms. c = rendered raw (drop j ds) (drop j ms))"
  by (auto simp: stored_texts_def)

lemma stored_texts_rotated:
  assumes "length ds = length ms"
  shows "entry raw d level message \<in>
           set (stored_texts prior raw (ds @ [d]) (ms @ [(level, message)]))"
proof -
  have "rendered raw (drop (length ms) (ds @ [d])) (drop (length ms) (ms @ [(level, message)])) =
          entry raw d level message"
    using assms by (simp add: rendered_def)
  then show ?thesis
    unfolding stored_texts_iff by (intro disjI2 exI [of _ "length ms"]) simp
qed

lemma stored_texts_appended:
  assumes "length ds = length ms" and "c \<in> set (stored_texts prior raw ds ms)"
  shows "c @ entry raw d level message \<in>
           set (stored_texts prior raw (ds @ [d]) (ms @ [(level, message)]))"
proof -
  from assms(2) consider "c = prior @ rendered raw ds ms"
    | j where "j < length ms" "c = rendered raw (drop j ds) (drop j ms)"
    unfolding stored_texts_iff by blast
  then show ?thesis
  proof cases
    case 1
    then show ?thesis
      unfolding stored_texts_iff using assms(1) by (simp add: rendered_snoc)
  next
    case 2
    have "rendered raw (drop j (ds @ [d])) (drop j (ms @ [(level, message)])) =
            rendered raw (drop j ds) (drop j ms) @ entry raw d level message"
      using assms(1) 2(1) by (simp add: rendered_snoc)
    with 2 show ?thesis
      unfolding stored_texts_iff by (intro disjI2 exI [of _ j]) simp
  qed
qed

lemma in_order_FulfilledI:
  assumes "ms = past @ queue L" and "length ds = length past" and "subseq ds ts"
    and "initializePromise L = Fulfilled" and "fs L (resource L) = Some c"
    and "c \<in> set (stored_texts (content_of files (resource L)) (donotUseFormatters L) ds past)"
    and "suffix c (content_of files (resource L) @ rendered (donotUseFormatters L) ds past)"
    and "length (content_of files (resource L) @ rendered (donotUseFormatters L) ds past) \<le> lim
           \<longrightarrow> c = content_of files (resource L) @ rendered (donotUseFormatters L) ds past"
  shows "in_order lim files ms ts L"
  unfolding in_order_def using assms by (intro exI [of _ ds] exI [of _ past]) simp

lemma in_order_log:
  "in_order lim files ms ts L \<Longrightarrow> in_order lim files (ms @ [(level, message)]) ts (log level message L)"
  unfolding in_order_def log_def by (cases "initializePromise L") auto

lemma in_order_settle:
  "in_order lim files ms ts L \<Longrightarrow> in_order lim files ms ts (settle mem_service L)"
  unfolding in_order_def settle_def initialize_def mem_service_def mem_createFile_def
  by (cases "initializePromise L"; cases "files (resource L)")
     (auto simp: content_of_def rendered_def stored_texts_def)

lemma in_order_run_next:
  assumes "in_order lim files ms ts L"
  shows "in_order lim files ms (ts @ [d]) (run_next mem_service lim d L)"
proof -
  from assms obtain ds past where
    ms: "ms = past @ queue L" and len: "length ds = length past" and sub: "subseq ds ts" and
    st: "case initializePromise L of
           Pending \<Rightarrow> past = [] \<and> fs L = files
         | Fulfilled \<Rightarrow>
             (\<exists>c. fs L (resource L) = Some c \<and>
                  c \<in> set (stored_texts (content_of files (resource L))
                               (donotUseFormatters L) ds past) \<and>
                  suffix c (content_of files (resource L) @ rendered (donotUseFormatters L) ds past) \<and>
                  (length (content_of files (resource L) @ rendered (donotUseFormatters L) ds past) \<le> lim
                     \<longrightarrow> c = content_of files (resource L) @ rendered (donotUseFormatters L) ds past))
         | Rejected e \<Rightarrow> False"
    unfolding in_order_def by blast
  have sub': "subseq ds (ts @ [d])" using sub by (rule subseq_rev_drop_many)
  have idle: "in_order lim files ms (ts @ [d]) L"
    unfolding in_order_def using ms len sub' st by blast
  show ?thesis
  proof (cases "queue L")
    case Nil
    then show ?thesis using idle by (simp add: run_next_def)
  next
    case (Cons t rest)
    obtain level message where t: "t = (level, message)" by (cases t)
    show ?thesis
    proof (cases "initializePromise L")
      case Pending
      then show ?thesis using idle Cons t by (simp add: run_next_def log_task_def)
    next
      case (Rejected e)
      then show ?thesis using st by simp
    next
      case Fulfilled
      let ?H = "content_of files (resource L) @ rendered (donotUseFormatters L) ds past"
      let ?e = "entry (donotUseFormatters L) d level message"
      from st Fulfilled obtain c where
        c: "fs L (resource L) = Some c" and
        mem: "c \<in> set (stored_texts (content_of files (resource L))
                         (donotUseFormatters L) ds past)" and
        suf: "suffix c ?H" and
        full: "length ?H \<le> lim \<longrightarrow> c = ?H"
        by auto
      have cof: "content_of (fs L) (resource L) = c" using c by (simp add: content_of_def)
      have ms': "ms = (past @ [(level, message)]) @ rest" using ms Cons t by simp
      have len': "length (ds @ [d]) = length (past @ [(level, message)])" using len by simp
      have sub'': "subseq (ds @ [d]) (ts @ [d])" using sub by simp
      have rend: "rendered (donotUseFormatters L) (ds @ [d]) (past @ [(level, message)]) =
                    rendered (donotUseFormatters L) ds past @ ?e"
        using len by (rule rendered_snoc)
      show ?thesis
      proof (cases "length c > lim")
        case True
        let ?L' = "(snd (getBackupResource L))
                \<lparr>fs := (fs L)(fst (getBackupResource L) \<mapsto> c, resource L \<mapsto> ?e)\<rparr>\<lparr>queue := rest\<rparr>"
        have run: "run_next mem_service lim d L = ?L'"
          using Cons t Fulfilled cof True by (simp add: run_next_def mem_log_task)
        have flds: "resource ?L' = resource L" "donotUseFormatters ?L' = donotUseFormatters L"
          "initializePromise ?L' = Fulfilled" "queue ?L' = rest"
          "fs ?L' (resource L) = Some ?e"
          using Fulfilled by (simp_all add: getBackupResource_def Let_def)
        have "?e \<in> set (stored_texts (content_of files (resource L)) (donotUseFormatters L)
                             (ds @ [d]) (past @ [(level, message)]))"
          using len by (rule stored_texts_rotated)
        moreover have "suffix ?e (?H @ ?e)" by (simp add: suffix_def)
        moreover have "length (?H @ ?e) \<le> lim \<longrightarrow> ?e = ?H @ ?e"
        proof
          assume "length (?H @ ?e) \<le> lim"
          then have "length ?H \<le> lim" by simp
          with full have "c = ?H" by simp
          with True \<open>length ?H \<le> lim\<close> show "?e = ?H @ ?e" by simp
        qed
        ultimately have "in_order lim files ms (ts @ [d]) ?L'"
          using ms' len' sub'' flds(3)
          by (intro in_order_FulfilledI [where ds = "ds @ [d]" and past = "past @ [(level, message)]"
                and c = "?e"])
             (simp_all only: flds rend append_assoc)
        then show ?thesis by (simp only: run)
      next
        case False
        let ?L' = "L\<lparr>fs := (fs L)(resource L \<mapsto> c @ ?e)\<rparr>\<lparr>queue := rest\<rparr>"
        have run: "run_next mem_service lim d L = ?L'"
          using Cons t Fulfilled cof False by (simp add: run_next_def mem_log_task)
        have flds: "resource ?L' = resource L" "donotUseFormatters ?L' = donotUseFormatters L"
          "initializePromise ?L' = Fulfilled" "queue ?L' = rest"
          "fs ?L' (resource L) = Some (c @ ?e)"
          using Fulfilled by simp_all
        have "c @ ?e \<in> set (stored_texts (content_of files (resource L)) (donotUseFormatters L)
                                 (ds @ [d]) (past @ [(level, message)]))"
          using len mem by (rule stored_texts_appended)
        moreover have "suffix (c @ ?e) (?H @ ?e)" using suf by (auto simp: suffix_def)
        moreover have "length (?H @ ?e) \<le> lim \<longrightarrow> c @ ?e = ?H @ ?e"
          using full by simp
        ultimately have "in_order lim files ms (ts @ [d]) ?L'"
          using ms' len' sub'' flds(3)
          by (intro in_order_FulfilledI [where ds = "ds @ [d]" and past = "past @ [(level, message)]"
                and c = "c @ ?e"])
             (simp_all only: flds rend append_assoc)
        then show ?thesis by (simp only: run)
      qed
    qed
  qed
qed

lemma step_fixed:
  "resource (step svc lim L e) = resource L \<and>
   donotUseFormatters (step svc lim L e) = donotUseFormatters L"
  by (cases e)
     (auto simp: log_def settle_def run_next_def log_task_def loadContent_def rotate_def
        getBackupResource_def Let_def
        split: promise.splits prod.splits sum.splits list.splits if_splits)

lemma run_fixed:
  "resource (run svc lim es L) = resource L \<and>
   donotUseFormatters (run svc lim es L) = donotUseFormatters L"
  by (induction es rule: rev_induct) (simp_all add: run_snoc step_fixed, simp add: run_def)

lemma in_order_step:
  "in_order lim files ms ts L \<Longrightarrow>
   in_order lim files (ms @ submitted [e]) (ts @ readings [e]) (step mem_service lim L e)"
  by (cases e) (simp_all add: in_order_log in_order_settle in_order_run_next)

lemma in_order_run:
  "in_order lim files (submitted es) (readings es)
     (run mem_service lim es (FileLogger_new r raw files))"
proof (induction es rule: rev_induct)
  case Nil
  show ?case by (simp add: run_def in_order_def FileLogger_new_def)
next
  case (snoc e es)
  from in_order_step [OF snoc.IH, of e] show ?case
    by (simp add: run_snoc submitted_append readings_append)
qed

lemma run_append: "run svc lim (xs @ ys) L = run svc lim ys (run svc lim xs L)"
  by (simp add: run_def)

lemma run_Cons: "run svc lim (e # es) L = run svc lim es (step svc lim L e)"
  by (simp add: run_def)

lemma settle_settled: "initializePromise (settle svc L) \<noteq> Pending"
  by (simp add: settle_def split: promise.splits prod.splits sum.splits)

lemma settle_queue: "queue (settle svc L) = queue L"
  by (simp add: settle_def split: promise.splits prod.splits sum.splits)

lemma log_task_settled:
  "initializePromise L \<noteq> Pending \<Longrightarrow>
   \<exists>res L'. log_task svc lim now level message L = Some (res, L') \<and>
             initializePromise L' = initializePromise L \<and> queue L' = queue L"
  by (cases "initializePromise L")
     (auto simp: log_task_def loadContent_def rotate_def getBackupResource_def Let_def
        split: prod.splits sum.splits)

lemma run_next_settled:
  assumes "initializePromise L \<noteq> Pending"
  shows "queue (run_next svc lim now L) = tl (queue L) \<and>
         initializePromise (run_next svc lim now L) = initializePromise L"
proof (cases "queue L")
  case Nil
  then show ?thesis by (simp add: run_next_def)
next
  case (Cons t rest)
  obtain level message where t: "t = (level, message)" by (cases t)
  from log_task_settled [OF assms, of svc lim now level message] obtain res L' where
    "log_task svc lim now level message L = Some (res, L')"
    "initializePromise L' = initializePromise L"
    by blast
  with Cons t show ?thesis by (simp add: run_next_def)
qed

lemma runs_drain:
  "initializePromise L \<noteq> Pending \<Longrightarrow>
   queue (run svc lim (map Run ds) L) = drop (length ds) (queue L)"
proof (induction ds arbitrary: L)
  case Nil
  show ?case by (simp add: run_def)
next
  case (Cons d ds)
  from run_next_settled [OF Cons.prems, of svc lim d]
  have q: "queue (run_next svc lim d L) = tl (queue L)"
    and p: "initializePromise (run_next svc lim d L) \<noteq> Pending"
    using Cons.prems by simp_all
  from Cons.IH [OF p] q show ?case by (simp add: run_Cons drop_Suc)
qed

lemma step_queue_length:
  "length (queue (step svc lim L e)) \<le> length (queue L) + length (submitted [e])"
proof (cases e)
  case (Log level message)
  then show ?thesis by (simp add: log_def)
next
  case InitSettles
  then show ?thesis by (simp add: settle_queue)
next
  case (Run now)
  show ?thesis
  proof (cases "initializePromise L = Pending")
    case True
    then have "run_next svc lim now L = L"
      by (simp add: run_next_def log_task_def split: list.splits prod.splits)
    then show ?thesis using Run by simp
  next
    case False
    from run_next_settled [OF this, of svc lim now] show ?thesis using Run by simp
  qed
qed

lemma run_queue_length:
  "length (queue (run svc lim es L)) \<le> length (queue L) + length (submitted es)"
proof (induction es rule: rev_induct)
  case Nil
  show ?case by (simp add: run_def)
next
  case (snoc e es)
  from step_queue_length [of svc lim "run svc lim es L" e] snoc.IH
  show ?case by (simp add: run_snoc submitted_append)
qed

lemma schedule_drains:
  assumes "length (submitted es) \<le> length ds"
  shows "queue (run svc lim (es @ InitSettles # map Run ds) (FileLogger_new r raw s)) = []"
proof -
  let ?L = "settle svc (run svc lim es (FileLogger_new r raw s))"
  have "length (queue ?L) \<le> length (submitted es)"
    using run_queue_length [of svc lim es "FileLogger_new r raw s"]
    by (simp add: settle_queue FileLogger_new_def)
  with assms have "drop (length ds) (queue ?L) = []" by simp
  with runs_drain [OF settle_settled, of svc lim ds svc "run svc lim es (FileLogger_new r raw s)"]
  show ?thesis by (simp add: run_append run_Cons)
qed

lemmas machine_defs =
  run_def log_def settle_def run_next_def log_task_def loadContent_def rotate_def
  getBackupResource_def initialize_def FileLogger_new_def
  mem_service_def mem_createFile_def mem_readFile_def mem_writeFile_def
  joinPath_def dirname_def basename_def entry_def Let_def

lemmas loop_defs = run_def log_def settle_def run_next_def initialize_def FileLogger_new_def
  mem_createFile_def content_of_def Let_def

lemma mem_service_sel [simp]:
  "createFile mem_service = mem_createFile" "readFile mem_service = mem_readFile"
  "writeFile mem_service = mem_writeFile"
  by (simp_all add: mem_service_def)

lemma backup_name_slots:
  "backup_name r (Suc 0) = joinPath (dirname r) (basename r @ ''_1'')"
  "backup_name r 2 = joinPath (dirname r) (basename r @ ''_2'')"
  "backup_name r 3 = joinPath (dirname r) (basename r @ ''_3'')"
  "backup_name r 4 = joinPath (dirname r) (basename r @ ''_4'')"
  "backup_name r 5 = joinPath (dirname r) (basename r @ ''_5'')"
  by (simp_all add: backup_name_def string_of_nat.simps digit_char_def)

lemma slot_first:
  "1 \<le> b \<Longrightarrow> b \<le> 6 \<Longrightarrow> (b - 1) mod 5 + 1 = (if b > 5 then 1 else (b::nat))"
  by (cases "b = 6") auto

lemma slot_next:
  "1 \<le> b \<Longrightarrow> b \<le> 6 \<Longrightarrow>
   (Suc (if b > 5 then 1 else b) - 1 + k) mod 5 = (b - 1 + Suc k) mod (5::nat)"
proof (cases "b = 6")
  case True
  have "(6 + k) mod 5 = (Suc k + 5) mod 5" by (simp add: add.commute)
  also have "\<dots> = Suc k mod 5" by (rule mod_add_self2)
  finally show ?thesis using True by simp
next
  case False
  assume "1 \<le> b" "b \<le> 6"
  with False show ?thesis by simp
qed

lemma rotations_nth:
  "k < n \<Longrightarrow> 1 \<le> backupIndex L \<Longrightarrow> backupIndex L \<le> 6 \<Longrightarrow>
   rotations n L ! k = backup_name (resource L) ((backupIndex L - 1 + k) mod 5 + 1)"
proof (induction n arbitrary: k L)
  case 0
  then show ?case by simp
next
  case (Suc n)
  let ?i = "if backupIndex L > 5 then 1 else backupIndex L"
  let ?L' = "L\<lparr>backupIndex := Suc ?i\<rparr>"
  have rot: "rotations (Suc n) L = backup_name (resource L) ?i # rotations n ?L'"
    by (simp add: getBackupResource_eq)
  show ?case
  proof (cases k)
    case 0
    have "(backupIndex L - 1) mod 5 + 1 = ?i" using Suc.prems by (intro slot_first) auto
    with 0 rot show ?thesis by simp
  next
    case (Suc k')
    have "rotations n ?L' ! k' =
            backup_name (resource ?L') ((backupIndex ?L' - 1 + k') mod 5 + 1)"
      using Suc.prems Suc by (intro Suc.IH) auto
    moreover have "(backupIndex ?L' - 1 + k') mod 5 = (backupIndex L - 1 + k) mod 5"
      using Suc.prems Suc slot_next [of "backupIndex L" k'] by simp
    ultimately show ?thesis using rot Suc by simp
  qed
qed

lemma length_entry: "length message \<le> length (entry raw now level message)"
  by (simp add: entry_def)

lemma log_each_Cons:
  "run svc lim (log_each ((now, level, message) # xs)) L =
     run svc lim (log_each xs) (run svc lim [Log level message, Run now] L)"
  by (simp add: log_each_def run_def)

lemma rotating_step:
  assumes "initializePromise L = Fulfilled" and "queue L = []"
    and "fs L (resource L) = Some c" and "lim < length c"
  shows "run mem_service lim [Log level message, Run now] L =
     L\<lparr>backupIndex := Suc (if backupIndex L > 5 then 1 else backupIndex L),
       queue := [],
       fs := (fs L)(backup_name (resource L) (if backupIndex L > 5 then 1 else backupIndex L) \<mapsto> c,
                    resource L \<mapsto> entry (donotUseFormatters L) now level message)\<rparr>"
  using assms
  by (simp add: run_def log_def run_next_def mem_log_task content_of_def getBackupResource_eq)

lemma rotating_tasks:
  assumes "initializePromise L = Fulfilled" and "queue L = []"
    and "fs L (resource L) = Some c" and "lim < length c"
    and "1 \<le> backupIndex L" and "backupIndex L \<le> 6"
    and "\<forall>x\<in>set xs. lim < length (snd (snd x))" and "k < length xs"
  shows "fs (run mem_service lim (log_each (take (Suc k) xs)) L)
           (backup_name (resource L) ((backupIndex L - 1 + k) mod 5 + 1)) =
           Some ((c # map (entry_of (donotUseFormatters L)) xs) ! k) \<and>
         backupIndex (run mem_service lim (log_each (take (Suc k) xs)) L) =
           Suc ((backupIndex L - 1 + k) mod 5 + 1) \<and>
         fs (run mem_service lim (log_each (take (Suc k) xs)) L) (resource L) =
           Some (entry_of (donotUseFormatters L) (xs ! k)) \<and>
         queue (run mem_service lim (log_each (take (Suc k) xs)) L) = []"
  using assms
proof (induction k arbitrary: L c xs)
  case 0
  then obtain x xs' where xs: "xs = x # xs'" by (cases xs) auto
  obtain now level message where x: "x = (now, level, message)" by (cases x)
  define i where "i = (if backupIndex L > 5 then 1 else backupIndex L)"
  have slot: "(backupIndex L - 1 + 0) mod 5 + 1 = i"
    using slot_first [OF "0.prems"(5,6)] by (simp add: i_def)
  have neq: "backup_name (resource L) i \<noteq> resource L"
    by (rule backup_name_neq)
  have step: "run mem_service lim (log_each (take (Suc 0) xs)) L =
      L\<lparr>backupIndex := Suc i, queue := [],
        fs := (fs L)(backup_name (resource L) i \<mapsto> c,
                     resource L \<mapsto> entry (donotUseFormatters L) now level message)\<rparr>"
    using rotating_step [OF "0.prems"(1-4), of level message now]
    by (simp add: xs x log_each_def i_def)
  show ?case
    unfolding step slot using neq by (simp add: xs x entry_of_def)
next
  case (Suc k)
  then obtain x xs' where xs: "xs = x # xs'" by (cases xs) auto
  obtain now level message where x: "x = (now, level, message)" by (cases x)
  define i where "i = (if backupIndex L > 5 then 1 else backupIndex L)"
  define e where "e = entry (donotUseFormatters L) now level message"
  define L1 where "L1 = L\<lparr>backupIndex := Suc i, queue := [],
       fs := (fs L)(backup_name (resource L) i \<mapsto> c, resource L \<mapsto> e)\<rparr>"
  have step: "run mem_service lim (log_each (take (Suc (Suc k)) xs)) L =
      run mem_service lim (log_each (take (Suc k) xs')) L1"
    unfolding xs x using rotating_step [OF Suc.prems(1-4), of level message now]
    by (simp add: log_each_Cons L1_def i_def e_def)
  have long: "lim < length e"
    using Suc.prems(7) length_entry [of message "donotUseFormatters L" now level]
    by (simp add: xs x e_def)
  have L1: "initializePromise L1 = Fulfilled" "queue L1 = []" "fs L1 (resource L1) = Some e"
    "resource L1 = resource L" "donotUseFormatters L1 = donotUseFormatters L"
    "backupIndex L1 = Suc i"
    using Suc.prems(1) by (simp_all add: L1_def)
  have range: "1 \<le> backupIndex L1" "backupIndex L1 \<le> 6"
    using Suc.prems(5,6) by (simp_all add: L1 i_def)
  have rest: "\<forall>x\<in>set xs'. lim < length (snd (snd x))" "k < length xs'"
    using Suc.prems(7,8) by (simp_all add: xs)
  note IH = Suc.IH [OF L1(1) L1(2) L1(3) long range rest]
  have idx: "(backupIndex L1 - 1 + k) mod 5 = (backupIndex L - 1 + Suc k) mod 5"
    using slot_next [OF Suc.prems(5,6), of k] by (simp add: L1 i_def)
  show ?case
    unfolding step using IH unfolding idx L1(4,5) by (simp add: xs x entry_of_def e_def)
qed

lemma getCurrentTimestamp_digits:
  assumes "getMonth now < 12" "getDate now < 32" "getHours now < 24" "getMinutes now < 60"
    "getSeconds now < 60" "getMilliseconds now < 1000"
  shows "getCurrentTimestamp now =
     string_of_nat (getFullYear now) @ ''-'' @
     [digit_char ((getMonth now + 1) div 10), digit_char ((getMonth now + 1) mod 10)] @ ''-'' @
     [digit_char (getDate now div 10), digit_char (getDate now mod 10)] @ '' '' @
     [digit_char (getHours now div 10), digit_char (getHours now mod 10)] @ '':'' @
     [digit_char (getMinutes now div 10), digit_char (getMinutes now mod 10)] @ '':'' @
     [digit_char (getSeconds now div 10), digit_char (getSeconds now mod 10)] @ ''.'' @
     [digit_char (getMilliseconds now div 100), digit_char (getMilliseconds now div 10 mod 10),
      digit_char (getMilliseconds now mod 10)]"
proof -
  have "toTwoDigits (getMonth now + 1) =
          [digit_char ((getMonth now + 1) div 10), digit_char ((getMonth now + 1) mod 10)]"
    using assms(1) by (intro toTwoDigits_eq) simp
  moreover have "toTwoDigits (getDate now) = [digit_char (getDate now div 10), digit_char (getDate now mod 10)]"
    using assms(2) by (intro toTwoDigits_eq) simp
  moreover have "toTwoDigits (getHours now) = [digit_char (getHours now div 10), digit_char (getHours now mod 10)]"
    using assms(3) by (intro toTwoDigits_eq) simp
  moreover have "toTwoDigits (getMinutes now) = [digit_char (getMinutes now div 10), digit_char (getMinutes now mod 10)]"
    using assms(4) by (intro toTwoDigits_eq) simp
  moreover have "toTwoDigits (getSeconds now) = [digit_char (getSeconds now div 10), digit_char (getSeconds now mod 10)]"
    using assms(5) by (intro toTwoDigits_eq) simp
  moreover have "toThreeDigits (getMilliseconds now) =
      [digit_char (getMilliseconds now div 100), digit_char (getMilliseconds now div 10 mod 10),
       digit_char (getMilliseconds now mod 10)]"
    using assms(6) by (rule toThreeDigits_eq)
  ultimately show ?thesis by (simp add: getCurrentTimestamp_def)
qed

lemma stringifyLogLevel_names:
  "stringifyLogLevel level \<in> set [''trace'', ''debug'', ''info'', ''warning'', ''error'', []]"
  by (cases level) simp_all


section \<open>Lemmas about the channel clients\<close>

lemma foldl_directory_only:
  "channel (foldl (\<lambda>C' m. C'\<lparr>directory := f m (directory C')\<rparr>) C ms) = channel C"
  by (induction ms arbitrary: C) simp_all

lemma on_remote_event_eq:
  "on_remote_event base ev C =
     C\<lparr>directory := foldl (\<lambda>d m. super_invoke base m d) (directory C) (mutations_of ev)\<rparr>"
  by (cases ev) (simp_all add: foldl_map)

lemma invoke_eq:
  "invoke base m C =
     C\<lparr>directory := super_invoke base m (directory C),
       channel := channel C @ [forwarded (windowId C) m]\<rparr>"
  by (cases m) (simp_all add: registerLogger_def deregisterLogger_def setLogLevel_def setVisibility_def)

lemma local_mutations_append:
  "local_mutations (xs @ ys) = local_mutations xs @ local_mutations ys"
  by (induction xs rule: local_mutations.induct) simp_all

lemma all_mutations_append:
  "all_mutations (xs @ ys) = all_mutations xs @ all_mutations ys"
  by (induction xs rule: all_mutations.induct) simp_all

lemma client_run_snoc: "client_run base (evs @ [ev]) C = client_step base (client_run base evs C) ev"
  by (simp add: client_run_def)

lemma client_run_eq:
  "client_run base evs C =
     C\<lparr>directory := foldl (\<lambda>d m. super_invoke base m d) (directory C) (all_mutations evs),
       channel := channel C @ map (forwarded (windowId C)) (local_mutations evs)\<rparr>"
proof (induction evs rule: rev_induct)
  case Nil
  show ?case by (simp add: client_run_def)
next
  case (snoc ev evs)
  show ?case
    by (cases ev)
       (simp_all add: client_run_snoc snoc.IH on_remote_event_eq invoke_eq
          local_mutations_append all_mutations_append)
qed

lemma doLog_fields:
  "calls (doLog ms L) = calls L @ [Call ''log'' [Uri (fileURI L), Messages ms]]"
  "buffer (doLog ms L) = buffer L" "isLoggerCreated (doLog ms L) = isLoggerCreated L"
  "fileURI (doLog ms L) = fileURI L"
  by (simp_all add: doLog_def)

lemma log_all_snoc: "log_all (ms @ [(level, message)]) L = Logger_log level message (log_all ms L)"
  by (simp add: log_all_def)

lemma log_all_before:
  "\<not> isLoggerCreated L \<Longrightarrow> log_all ms L = L\<lparr>buffer := buffer L @ ms\<rparr>"
proof (induction ms rule: rev_induct)
  case Nil
  show ?case by (simp add: log_all_def)
next
  case (snoc m ms)
  obtain level message where m: "m = (level, message)" by (cases m)
  show ?case using snoc by (simp add: m log_all_snoc Logger_log_def)
qed

lemma log_all_after:
  "isLoggerCreated L \<Longrightarrow>
   log_all ms L =
     L\<lparr>calls := calls L @ map (\<lambda>m. Call ''log'' [Uri (fileURI L), Messages [m]]) ms\<rparr>"
proof (induction ms rule: rev_induct)
  case Nil
  show ?case by (simp add: log_all_def)
next
  case (snoc m ms)
  obtain level message where m: "m = (level, message)" by (cases m)
  show ?case using snoc by (simp add: m log_all_snoc Logger_log_def doLog_def)
qed

lemma delivered_append_other:
  "delivered (cs @ ds) = delivered cs @ delivered ds"
  by (induction cs rule: delivered.induct) simp_all

lemma delivered_singles:
  "delivered (map (\<lambda>m. Call ''log'' [Uri f, Messages [m]]) ms) = ms"
  by (induction ms) simp_all

lemma follower_run_snoc: "follower_run (evs @ [ev]) F = follower_step (follower_run evs F) ev"
  by (simp add: follower_run_def)

lemma follower_step_eq:
  "follower_step F ev = F\<lparr>logService_level := level_of ev, effects := effects F @ effects_of ev\<rparr>"
  by (cases ev)
     (simp_all add: FollowerLogService_setLevel_def LogService_setLevel_def
        parent_onDidChangeLogLevel_def LogLevelChannelClient_setLevel_def Let_def)

lemma follower_run_eq:
  "follower_run evs F =
     F\<lparr>logService_level := (if evs = [] then logService_level F else level_of (last evs)),
       effects := effects F @ concat (map effects_of evs)\<rparr>"
  by (induction evs rule: rev_induct)
     (simp_all add: follower_run_snoc follower_step_eq, simp add: follower_run_def)


section \<open>The claims about \<open>FileLogger\<close>\<close>

text \<open>
  Claim C1, amended. For any file service, once \<open>initialize()\<close> has settled, as many task
  runs as there are messages empty the queue, whatever the order of the \<open>log\<close> calls
  before. On the in-memory store, where creation, reads and writes succeed, every schedule
  of \<open>log\<close> calls, settling and task runs that leaves the queue empty leaves in the
  primary file whole entries in the order of submission, rendered at readings taken in
  order from the runs of the schedule: either the content the store had before followed
  by the entries of all the messages, or, when a task rotated, the entries from one of the
  messages on to the last. It is the former whenever that text is within the ceiling.
\<close>

theorem FileLogger_log_order:
  "(length (submitted es) \<le> length ds \<longrightarrow>
      queue (run svc lim (es @ InitSettles # map Run ds) (FileLogger_new r raw s)) = []) \<and>
   (queue (run mem_service lim es (FileLogger_new r raw files)) = [] \<and> submitted es \<noteq> [] \<longrightarrow>
      (\<exists>ts c. length ts = length (submitted es) \<and> subseq ts (readings es) \<and>
         fs (run mem_service lim es (FileLogger_new r raw files)) r = Some c \<and>
         (c = content_of files r @ rendered raw ts (submitted es) \<or>
          (\<exists>j<length (submitted es). c = rendered raw (drop j ts) (drop j (submitted es)))) \<and>
         suffix c (content_of files r @ rendered raw ts (submitted es)) \<and>
         (length (content_of files r @ rendered raw ts (submitted es)) \<le> lim \<longrightarrow>
            c = content_of files r @ rendered raw ts (submitted es))))"
proof (intro conjI impI)
  assume "length (submitted es) \<le> length ds"
  then show "queue (run svc lim (es @ InitSettles # map Run ds) (FileLogger_new r raw s)) = []"
    by (rule schedule_drains)
next
  let ?L = "run mem_service lim es (FileLogger_new r raw files)"
  assume drained: "queue ?L = [] \<and> submitted es \<noteq> []"
  have fixed: "resource ?L = r" "donotUseFormatters ?L = raw"
    using run_fixed [of mem_service lim es "FileLogger_new r raw files"]
    by (simp_all add: FileLogger_new_def)
  from in_order_run [of lim files es r raw] obtain ts past where
    ms: "submitted es = past @ queue ?L" and len: "length ts = length past"
    and sub: "subseq ts (readings es)" and
    st: "case initializePromise ?L of
           Pending \<Rightarrow> past = [] \<and> fs ?L = files
         | Fulfilled \<Rightarrow>
             (\<exists>c. fs ?L (resource ?L) = Some c \<and>
                  c \<in> set (stored_texts (content_of files (resource ?L))
                               (donotUseFormatters ?L) ts past) \<and>
                  suffix c (content_of files (resource ?L) @ rendered (donotUseFormatters ?L) ts past) \<and>
                  (length (content_of files (resource ?L) @ rendered (donotUseFormatters ?L) ts past) \<le> lim
                     \<longrightarrow> c = content_of files (resource ?L) @ rendered (donotUseFormatters ?L) ts past))
         | Rejected e \<Rightarrow> False"
    unfolding in_order_def by blast
  from ms drained have past: "past = submitted es" "past \<noteq> []" by simp_all
  show "\<exists>ts c. length ts = length (submitted es) \<and> subseq ts (readings es) \<and>
         fs ?L r = Some c \<and>
         (c = content_of files r @ rendered raw ts (submitted es) \<or>
          (\<exists>j<length (submitted es). c = rendered raw (drop j ts) (drop j (submitted es)))) \<and>
         suffix c (content_of files r @ rendered raw ts (submitted es)) \<and>
         (length (content_of files r @ rendered raw ts (submitted es)) \<le> lim \<longrightarrow>
            c = content_of files r @ rendered raw ts (submitted es))"
  proof (cases "initializePromise ?L")
    case Pending
    with st past show ?thesis by simp
  next
    case (Rejected e)
    with st show ?thesis by simp
  next
    case Fulfilled
    with st obtain c where "fs ?L r = Some c"
      "c \<in> set (stored_texts (content_of files r) raw ts past)"
      "suffix c (content_of files r @ rendered raw ts past)"
      "length (content_of files r @ rendered raw ts past) \<le> lim
         \<longrightarrow> c = content_of files r @ rendered raw ts past"
      unfolding fixed by auto
    with len sub past(1) show ?thesis
      unfolding stored_texts_iff by (intro exI [of _ ts] exI [of _ c]) simp
  qed
qed

theorem FileLogger_log_order_witness:
  "let d1 = \<lparr>getFullYear = 2023, getMonth = 0, getDate = 5, getHours = 7, getMinutes = 8,
             getSeconds = 9, getMilliseconds = 12\<rparr>;
       d2 = \<lparr>getFullYear = 2023, getMonth = 0, getDate = 5, getHours = 7, getMinutes = 8,
             getSeconds = 10, getMilliseconds = 345\<rparr>;
       es = [Log Info ''a'', Log Error ''b''] @ InitSettles # map Run [d1, d2];
       L = run mem_service 100 es (FileLogger_new ''/logs/a.log'' False Map.empty)
   in length (submitted [Log Info ''a'', Log Error ''b'']) \<le> length [d1, d2] \<and>
      queue L = [] \<and> submitted es \<noteq> [] \<and>
      fs L ''/logs/a.log'' =
        Some (''2023-01-05 07:08:09.012 [info] a'' @ [CHR 0x0A] @
              ''2023-01-05 07:08:10.345 [error] b'' @ [CHR 0x0A]) \<and>
      (\<exists>ts c. length ts = length (submitted es) \<and> subseq ts (readings es) \<and>
         fs L ''/logs/a.log'' = Some c \<and>
         (c = content_of Map.empty ''/logs/a.log'' @ rendered False ts (submitted es) \<or>
          (\<exists>j<length (submitted es). c = rendered False (drop j ts) (drop j (submitted es)))) \<and>
         suffix c (content_of Map.empty ''/logs/a.log'' @ rendered False ts (submitted es)) \<and>
         (length (content_of Map.empty ''/logs/a.log'' @ rendered False ts (submitted es)) \<le> 100
            \<longrightarrow> c = content_of Map.empty ''/logs/a.log'' @ rendered False ts (submitted es)))"
proof -
  let ?d1 = "\<lparr>getFullYear = 2023, getMonth = 0, getDate = 5, getHours = 7, getMinutes = 8,
             getSeconds = 9, getMilliseconds = 12\<rparr>"
  let ?d2 = "\<lparr>getFullYear = 2023, getMonth = 0, getDate = 5, getHours = 7, getMinutes = 8,
             getSeconds = 10, getMilliseconds = 345\<rparr>"
  let ?logs = "[Log Info ''a'', Log Error ''b'']"
  let ?es = "?logs @ InitSettles # map Run [?d1, ?d2]"
  let ?L = "run mem_service 100 ?es (FileLogger_new ''/logs/a.log'' False Map.empty)"
  have h0: "length (submitted ?logs) \<le> length [?d1, ?d2]" by simp
  have h1: "queue ?L = []"
    by (rule FileLogger_log_order [where es = ?logs and ds = "[?d1, ?d2]" and svc = mem_service
          and lim = 100 and r = "''/logs/a.log''" and raw = False and s = Map.empty,
          THEN conjunct1, THEN mp, OF h0])
  have h2: "submitted ?es \<noteq> []" by simp
  have c2: "fs ?L ''/logs/a.log'' =
        Some (''2023-01-05 07:08:09.012 [info] a'' @ [CHR 0x0A] @
              ''2023-01-05 07:08:10.345 [error] b'' @ [CHR 0x0A])"
    by (simp add: machine_defs getCurrentTimestamp_def toTwoDigits_def toThreeDigits_def
          string_of_nat.simps digit_char_def)
  note ord = FileLogger_log_order [where es = ?es and lim = 100 and r = "''/logs/a.log''"
      and raw = False and files = Map.empty, THEN conjunct2, THEN mp, OF conjI [OF h1 h2]]
  from h0 h1 h2 c2 ord show ?thesis
    unfolding Let_def by (intro conjI)
qed

text \<open>
  Claim C1 as stated, that the final content equals the concatenation of the entries, where
  it fails. A file that held \<open>old\<close> ends as \<open>oldx\<close>. With a ceiling of 10, 11 characters
  followed by \<open>b\<close> leave \<open>b\<close>, and so does, with the ceiling of the source, a message one
  longer than it. When the write of \<open>x\<close> fails the file holds \<open>y\<close> alone. When the
  creation is denied the tasks run and leave no file.
\<close>

theorem FileLogger_log_order_counterexample:
  "let d = \<lparr>getFullYear = 2023, getMonth = 0, getDate = 5, getHours = 7, getMinutes = 8,
            getSeconds = 9, getMilliseconds = 12\<rparr>;
       f = ''/logs/a.log'';
       long = replicate (Suc MAX_FILE_SIZE) CHR ''a'';
       locked = mem_service\<lparr>writeFile := \<lambda>r c s.
                  if c = ''x'' then (Inl (FileOperationError FILE_WRITE_LOCKED), s)
                  else mem_writeFile r c s\<rparr>;
       denied = mem_service\<lparr>createFile :=
                  \<lambda>r s. (Inl (FileOperationError FILE_PERMISSION_DENIED), s)\<rparr>
   in rendered True [d] [(Info, ''x'')] = ''x'' \<and>
      fs (run mem_service MAX_FILE_SIZE [InitSettles, Log Info ''x'', Run d]
            (FileLogger_new f True [f \<mapsto> ''old''])) f = Some ''oldx'' \<and>
      rendered True [d, d] [(Info, ''aaaaaaaaaaa''), (Info, ''b'')] = ''aaaaaaaaaaab'' \<and>
      fs (run mem_service 10 [InitSettles, Log Info ''aaaaaaaaaaa'', Run d, Log Info ''b'', Run d]
            (FileLogger_new f True Map.empty)) f = Some ''b'' \<and>
      fs (run mem_service MAX_FILE_SIZE [InitSettles, Log Info long, Run d, Log Info ''b'', Run d]
            (FileLogger_new f True Map.empty)) f = Some ''b'' \<and>
      rendered True [d, d] [(Info, ''x''), (Info, ''y'')] = ''xy'' \<and>
      fs (run locked MAX_FILE_SIZE [InitSettles, Log Info ''x'', Run d, Log Info ''y'', Run d]
            (FileLogger_new f True Map.empty)) f = Some ''y'' \<and>
      queue (run denied MAX_FILE_SIZE [InitSettles, Log Info ''x'', Run d]
            (FileLogger_new f True Map.empty)) = [] \<and>
      fs (run denied MAX_FILE_SIZE [InitSettles, Log Info ''x'', Run d]
            (FileLogger_new f True Map.empty)) f = None"
proof -
  let ?d = "\<lparr>getFullYear = 2023, getMonth = 0, getDate = 5, getHours = 7, getMinutes = 8,
            getSeconds = 9, getMilliseconds = 12\<rparr>"
  let ?f = "''/logs/a.log''"
  let ?long = "replicate (Suc MAX_FILE_SIZE) CHR ''a''"
  let ?locked = "mem_service\<lparr>writeFile := \<lambda>r c s.
                  if c = ''x'' then (Inl (FileOperationError FILE_WRITE_LOCKED), s)
                  else mem_writeFile r c s\<rparr>"
  let ?denied = "mem_service\<lparr>createFile :=
                  \<lambda>r s. (Inl (FileOperationError FILE_PERMISSION_DENIED), s)\<rparr>"
  have r1: "rendered True [?d] [(Info, ''x'')] = ''x''"
    by (simp add: rendered_def entry_def)
  have prior: "fs (run mem_service MAX_FILE_SIZE [InitSettles, Log Info ''x'', Run ?d]
            (FileLogger_new ?f True [?f \<mapsto> ''old''])) ?f = Some ''oldx''"
    by (simp add: loop_defs mem_log_task entry_def MAX_FILE_SIZE_def ByteSize_MB_def)
  have r2: "rendered True [?d, ?d] [(Info, ''aaaaaaaaaaa''), (Info, ''b'')] = ''aaaaaaaaaaab''"
    by (simp add: rendered_def entry_def)
  have ten: "fs (run mem_service 10
                 [InitSettles, Log Info ''aaaaaaaaaaa'', Run ?d, Log Info ''b'', Run ?d]
                 (FileLogger_new ?f True Map.empty)) ?f = Some ''b''"
    by (simp add: loop_defs mem_log_task getBackupResource_eq entry_def)
  have real: "fs (run mem_service MAX_FILE_SIZE
                 [InitSettles, Log Info ?long, Run ?d, Log Info ''b'', Run ?d]
                 (FileLogger_new ?f True Map.empty)) ?f = Some ''b''"
    by (simp add: loop_defs mem_log_task getBackupResource_eq entry_def)
  have r3: "rendered True [?d, ?d] [(Info, ''x''), (Info, ''y'')] = ''xy''"
    by (simp add: rendered_def entry_def)
  have locked: "fs (run ?locked MAX_FILE_SIZE
                 [InitSettles, Log Info ''x'', Run ?d, Log Info ''y'', Run ?d]
                 (FileLogger_new ?f True Map.empty)) ?f = Some ''y''"
    by (simp add: machine_defs MAX_FILE_SIZE_def ByteSize_MB_def)
  have denied1: "queue (run ?denied MAX_FILE_SIZE [InitSettles, Log Info ''x'', Run ?d]
            (FileLogger_new ?f True Map.empty)) = []"
    by (simp add: machine_defs)
  have denied2: "fs (run ?denied MAX_FILE_SIZE [InitSettles, Log Info ''x'', Run ?d]
            (FileLogger_new ?f True Map.empty)) ?f = None"
    by (simp add: machine_defs)
  from r1 prior r2 ten real r3 locked denied1 denied2 show ?thesis
    unfolding Let_def by (intro conjI)
qed

text \<open>
  Claim C2, amended. A task rotates exactly when the content it loaded is longer than the
  ceiling: it then writes that content to the current backup resource, which is never the
  primary one, advances the index, and leaves the new entry alone in the primary file.
  Content no longer than the ceiling is kept and the entry appended, so with a ceiling of 10
  and raw messages, a content of 10 characters is not rotated by the next write, and a
  content of 11 characters is: backup slot 1 then holds the 11 characters and the primary
  file holds \<open>b\<close>.
\<close>

theorem rotation_by_size:
  assumes "initializePromise L = Fulfilled" and "fs L (resource L) = Some content"
  shows "(lim < length content \<longrightarrow>
            log_task mem_service lim now level message L =
              Some (Inr (), L\<lparr>backupIndex := Suc (if backupIndex L > 5 then 1 else backupIndex L),
                              fs := (fs L)
                                (backup_name (resource L) (if backupIndex L > 5 then 1 else backupIndex L)
                                   \<mapsto> content,
                                 resource L \<mapsto> entry (donotUseFormatters L) now level message)\<rparr>) \<and>
            backup_name (resource L) (if backupIndex L > 5 then 1 else backupIndex L) \<noteq> resource L) \<and>
         (length content \<le> lim \<longrightarrow>
            log_task mem_service lim now level message L =
              Some (Inr (), L\<lparr>fs := (fs L)(resource L \<mapsto>
                              content @ entry (donotUseFormatters L) now level message)\<rparr>)) \<and>
         (let L1 = run mem_service 10
                     [InitSettles, Log level ''aaaaaaaaaa'', Run now, Log level ''b'', Run now]
                     (FileLogger_new r True Map.empty)
          in fs L1 r = Some ''aaaaaaaaaab'' \<and>
             fs L1 (joinPath (dirname r) (basename r @ ''_1'')) = None \<and>
             backupIndex L1 = 1) \<and>
         (let L2 = run mem_service 10
                     [InitSettles, Log level ''aaaaaaaaaaa'', Run now, Log level ''b'', Run now]
                     (FileLogger_new r True Map.empty)
          in fs L2 (joinPath (dirname r) (basename r @ ''_1'')) = Some ''aaaaaaaaaaa'' \<and>
             fs L2 r = Some ''b'' \<and> backupIndex L2 = 2)"
proof -
  have c: "content_of (fs L) (resource L) = content" using assms(2) by (simp add: content_of_def)
  have rot: "lim < length content \<longrightarrow>
            log_task mem_service lim now level message L =
              Some (Inr (), L\<lparr>backupIndex := Suc (if backupIndex L > 5 then 1 else backupIndex L),
                              fs := (fs L)
                                (backup_name (resource L) (if backupIndex L > 5 then 1 else backupIndex L)
                                   \<mapsto> content,
                                 resource L \<mapsto> entry (donotUseFormatters L) now level message)\<rparr>) \<and>
            backup_name (resource L) (if backupIndex L > 5 then 1 else backupIndex L) \<noteq> resource L"
    using assms(1) c by (simp add: mem_log_task getBackupResource_eq backup_name_neq)
  have keep: "length content \<le> lim \<longrightarrow>
            log_task mem_service lim now level message L =
              Some (Inr (), L\<lparr>fs := (fs L)(resource L \<mapsto>
                              content @ entry (donotUseFormatters L) now level message)\<rparr>)"
    using assms(1) c by (simp add: mem_log_task)
  have ten: "let L1 = run mem_service 10
                     [InitSettles, Log level ''aaaaaaaaaa'', Run now, Log level ''b'', Run now]
                     (FileLogger_new r True Map.empty)
          in fs L1 r = Some ''aaaaaaaaaab'' \<and>
             fs L1 (joinPath (dirname r) (basename r @ ''_1'')) = None \<and>
             backupIndex L1 = 1"
    using backup_name_neq [of r 1]
    by (simp add: loop_defs mem_log_task getBackupResource_eq entry_def backup_name_slots)
  have eleven: "let L2 = run mem_service 10
                     [InitSettles, Log level ''aaaaaaaaaaa'', Run now, Log level ''b'', Run now]
                     (FileLogger_new r True Map.empty)
          in fs L2 (joinPath (dirname r) (basename r @ ''_1'')) = Some ''aaaaaaaaaaa'' \<and>
             fs L2 r = Some ''b'' \<and> backupIndex L2 = 2"
    using backup_name_neq [of r 1]
    by (simp add: loop_defs mem_log_task getBackupResource_eq entry_def backup_name_slots)
  from rot keep ten eleven show ?thesis by blast
qed

theorem rotation_by_size_witness:
  "let L = \<lparr> resource = ''/logs/a.log'', donotUseFormatters = True, backupIndex = 6,
             initializePromise = Fulfilled, queue = [],
             fs = [''/logs/a.log'' \<mapsto> ''aaaaaaaaaaa'', ''/logs/a.log_1'' \<mapsto> ''old''] \<rparr>;
       K = \<lparr> resource = ''/logs/a.log'', donotUseFormatters = True, backupIndex = 1,
             initializePromise = Fulfilled, queue = [],
             fs = [''/logs/a.log'' \<mapsto> ''aaaaaaaaaa''] \<rparr>;
       now = \<lparr>getFullYear = 2023, getMonth = 0, getDate = 5, getHours = 7,
              getMinutes = 8, getSeconds = 9, getMilliseconds = 12\<rparr>
   in initializePromise L = Fulfilled \<and> fs L (resource L) = Some ''aaaaaaaaaaa'' \<and>
      (10::nat) < length ''aaaaaaaaaaa'' \<and>
      (case log_task mem_service 10 now Info ''b'' L of
         None \<Rightarrow> False
       | Some (res, L') \<Rightarrow>
           res = Inr () \<and> backupIndex L' = 2 \<and>
           fs L' ''/logs/a.log_1'' = Some ''aaaaaaaaaaa'' \<and> fs L' ''/logs/a.log'' = Some ''b'') \<and>
      initializePromise K = Fulfilled \<and> fs K (resource K) = Some ''aaaaaaaaaa'' \<and>
      length ''aaaaaaaaaa'' \<le> (10::nat) \<and>
      (case log_task mem_service 10 now Info ''b'' K of
         None \<Rightarrow> False
       | Some (res, K') \<Rightarrow>
           res = Inr () \<and> backupIndex K' = 1 \<and>
           fs K' ''/logs/a.log_1'' = None \<and> fs K' ''/logs/a.log'' = Some ''aaaaaaaaaab'')"
proof -
  let ?L = "\<lparr> resource = ''/logs/a.log'', donotUseFormatters = True, backupIndex = 6,
             initializePromise = Fulfilled, queue = [],
             fs = [''/logs/a.log'' \<mapsto> ''aaaaaaaaaaa'', ''/logs/a.log_1'' \<mapsto> ''old''] \<rparr>"
  let ?K = "\<lparr> resource = ''/logs/a.log'', donotUseFormatters = True, backupIndex = 1,
             initializePromise = Fulfilled, queue = [],
             fs = [''/logs/a.log'' \<mapsto> ''aaaaaaaaaa''] \<rparr>"
  have h1: "initializePromise ?L = Fulfilled" by simp
  have h2: "fs ?L (resource ?L) = Some ''aaaaaaaaaaa''" by simp
  have k1: "initializePromise ?K = Fulfilled" by simp
  have k2: "fs ?K (resource ?K) = Some ''aaaaaaaaaa''" by simp
  have nm: "backup_name ''/logs/a.log'' (Suc 0) = ''/logs/a.log_1''"
    by (simp add: backup_name_slots joinPath_def dirname_def basename_def)
  from rotation_by_size [OF h1 h2, of 10 _ Info "''b''"]
       rotation_by_size [OF k1 k2, of 10 _ Info "''b''"] h1 h2 k1 k2
  show ?thesis
    unfolding Let_def by (simp add: nm entry_def)
qed

text \<open>
  The scenario of claim C2 as stated: with a ceiling of 10, logging the ten characters
  \<open>aaaaaaaaaa\<close> and then \<open>b\<close>. With raw messages nothing is rotated: both messages are in
  the primary file, no backup exists and the index is still 1. With formatted entries the
  second task does rotate, and backup slot 1 holds the whole first entry, not the ten
  characters.
\<close>

theorem rotation_at_ceiling_counterexample:
  "let es = [InitSettles, Log Info ''aaaaaaaaaa'',
             Run \<lparr>getFullYear = 2023, getMonth = 0, getDate = 5, getHours = 7, getMinutes = 8,
                  getSeconds = 9, getMilliseconds = 12\<rparr>,
             Log Info ''b'',
             Run \<lparr>getFullYear = 2023, getMonth = 0, getDate = 5, getHours = 7, getMinutes = 8,
                  getSeconds = 9, getMilliseconds = 13\<rparr>];
       L = run mem_service 10 es (FileLogger_new ''/logs/a.log'' True Map.empty);
       F = run mem_service 10 es (FileLogger_new ''/logs/a.log'' False Map.empty)
   in length ''aaaaaaaaaa'' = 10 \<and>
      fs L ''/logs/a.log'' = Some ''aaaaaaaaaab'' \<and>
      fs L ''/logs/a.log_1'' = None \<and>
      backupIndex L = 1 \<and>
      fs F ''/logs/a.log_1'' =
        Some (''2023-01-05 07:08:09.012 [info] aaaaaaaaaa'' @ [CHR 0x0A]) \<and>
      fs F ''/logs/a.log_1'' \<noteq> Some ''aaaaaaaaaa'' \<and>
      fs F ''/logs/a.log'' = Some (''2023-01-05 07:08:09.013 [info] b'' @ [CHR 0x0A])"
  by (simp add: machine_defs getCurrentTimestamp_def toTwoDigits_def toThreeDigits_def
        string_of_nat.simps digit_char_def)

text \<open>
  Claim C3. From a new logger, six consecutive rotations name the backups
  \<open><dirname>/<basename>_<slot>\<close> with the slots 1, 2, 3, 4, 5, 1; in general rotation number
  \<open>k\<close> (from 0) uses slot \<open>k mod 5 + 1\<close>; from an index of at least 1 the slot used lies
  between 1 and 5; a rotating task leaves the rotated content in the backup resource
  whatever that resource held before, and keeps the advanced index. So in a run of tasks
  that all rotate, started at the initial index, task number \<open>j\<close> writes the content it
  found, which is the entry of the task before it, to slot \<open>j mod 5 + 1\<close> and leaves the
  index one above that slot.
\<close>

theorem backup_slot_cycle:
  "rotations 6 (FileLogger_new r raw s) =
     [joinPath (dirname r) (basename r @ ''_1''), joinPath (dirname r) (basename r @ ''_2''),
      joinPath (dirname r) (basename r @ ''_3''), joinPath (dirname r) (basename r @ ''_4''),
      joinPath (dirname r) (basename r @ ''_5''), joinPath (dirname r) (basename r @ ''_1'')] \<and>
   (k < n \<longrightarrow>
      rotations n (FileLogger_new r raw s) ! k =
        joinPath (dirname r) (basename r @ ''_'' @ string_of_nat (k mod 5 + 1))) \<and>
   (1 \<le> backupIndex L \<longrightarrow>
      (\<exists>slot. 1 \<le> slot \<and> slot \<le> 5 \<and>
         getBackupResource L =
           (joinPath (dirname (resource L)) (basename (resource L) @ ''_'' @ string_of_nat slot),
            L\<lparr>backupIndex := Suc slot\<rparr>))) \<and>
   (initializePromise L = Fulfilled \<and> fs L (resource L) = Some content \<and> lim < length content \<longrightarrow>
      (case log_task mem_service lim now level message L of
         None \<Rightarrow> False
       | Some (res, L') \<Rightarrow>
           res = Inr () \<and> fs L' (fst (getBackupResource L)) = Some content \<and>
           backupIndex L' = backupIndex (snd (getBackupResource L)))) \<and>
   (initializePromise K = Fulfilled \<and> queue K = [] \<and> backupIndex K = 1 \<and>
    fs K (resource K) = Some prior \<and> ceil < length prior \<and>
    (\<forall>x\<in>set xs. ceil < length (snd (snd x))) \<and> j < length xs \<longrightarrow>
      (let Kj = run mem_service ceil (log_each (take (Suc j) xs)) K
       in fs Kj (joinPath (dirname (resource K))
                   (basename (resource K) @ ''_'' @ string_of_nat (j mod 5 + 1))) =
            Some ((prior # map (entry_of (donotUseFormatters K)) xs) ! j) \<and>
          backupIndex Kj = Suc (j mod 5 + 1) \<and>
          fs Kj (resource K) = Some (entry_of (donotUseFormatters K) (xs ! j)) \<and>
          queue Kj = []))"
proof -
  have range: "1 \<le> backupIndex L \<longrightarrow>
      (\<exists>slot. 1 \<le> slot \<and> slot \<le> 5 \<and>
         getBackupResource L =
           (joinPath (dirname (resource L)) (basename (resource L) @ ''_'' @ string_of_nat slot),
            L\<lparr>backupIndex := Suc slot\<rparr>))"
  proof
    assume "1 \<le> backupIndex L"
    then have "1 \<le> (if backupIndex L > 5 then 1 else backupIndex L) \<and>
               (if backupIndex L > 5 then 1 else backupIndex L) \<le> 5"
      by simp
    then show "\<exists>slot. 1 \<le> slot \<and> slot \<le> 5 \<and>
         getBackupResource L =
           (joinPath (dirname (resource L)) (basename (resource L) @ ''_'' @ string_of_nat slot),
            L\<lparr>backupIndex := Suc slot\<rparr>)"
      by (intro exI [of _ "if backupIndex L > 5 then 1 else backupIndex L"])
         (simp add: getBackupResource_def Let_def)
  qed
  have six: "rotations 6 (FileLogger_new r raw s) =
     [joinPath (dirname r) (basename r @ ''_1''), joinPath (dirname r) (basename r @ ''_2''),
      joinPath (dirname r) (basename r @ ''_3''), joinPath (dirname r) (basename r @ ''_4''),
      joinPath (dirname r) (basename r @ ''_5''), joinPath (dirname r) (basename r @ ''_1'')]"
    by (simp add: eval_nat_numeral getBackupResource_def FileLogger_new_def Let_def
          string_of_nat.simps digit_char_def)
  have nth: "k < n \<longrightarrow>
      rotations n (FileLogger_new r raw s) ! k =
        joinPath (dirname r) (basename r @ ''_'' @ string_of_nat (k mod 5 + 1))"
    using rotations_nth [of k n "FileLogger_new r raw s"]
    by (simp add: FileLogger_new_def backup_name_def)
  have over: "initializePromise L = Fulfilled \<and> fs L (resource L) = Some content \<and>
      lim < length content \<longrightarrow>
      (case log_task mem_service lim now level message L of
         None \<Rightarrow> False
       | Some (res, L') \<Rightarrow>
           res = Inr () \<and> fs L' (fst (getBackupResource L)) = Some content \<and>
           backupIndex L' = backupIndex (snd (getBackupResource L)))"
    using getBackupResource_neq [of L] by (simp add: mem_log_task content_of_def)
  have tasks: "initializePromise K = Fulfilled \<and> queue K = [] \<and> backupIndex K = 1 \<and>
    fs K (resource K) = Some prior \<and> ceil < length prior \<and>
    (\<forall>x\<in>set xs. ceil < length (snd (snd x))) \<and> j < length xs \<longrightarrow>
      (let Kj = run mem_service ceil (log_each (take (Suc j) xs)) K
       in fs Kj (joinPath (dirname (resource K))
                   (basename (resource K) @ ''_'' @ string_of_nat (j mod 5 + 1))) =
            Some ((prior # map (entry_of (donotUseFormatters K)) xs) ! j) \<and>
          backupIndex Kj = Suc (j mod 5 + 1) \<and>
          fs Kj (resource K) = Some (entry_of (donotUseFormatters K) (xs ! j)) \<and>
          queue Kj = [])"
  proof
    assume h: "initializePromise K = Fulfilled \<and> queue K = [] \<and> backupIndex K = 1 \<and>
      fs K (resource K) = Some prior \<and> ceil < length prior \<and>
      (\<forall>x\<in>set xs. ceil < length (snd (snd x))) \<and> j < length xs"
    then have "1 \<le> backupIndex K" "backupIndex K \<le> 6" by simp_all
    from rotating_tasks [OF _ _ _ _ this, of prior ceil xs j] h
    show "let Kj = run mem_service ceil (log_each (take (Suc j) xs)) K
       in fs Kj (joinPath (dirname (resource K))
                   (basename (resource K) @ ''_'' @ string_of_nat (j mod 5 + 1))) =
            Some ((prior # map (entry_of (donotUseFormatters K)) xs) ! j) \<and>
          backupIndex Kj = Suc (j mod 5 + 1) \<and>
          fs Kj (resource K) = Some (entry_of (donotUseFormatters K) (xs ! j)) \<and>
          queue Kj = []"
      unfolding Let_def by (simp add: backup_name_def)
  qed
  from six nth range over tasks show ?thesis by blast
qed

theorem backup_slot_cycle_witness:
  "let f = ''/logs/a.log'';
       d = \<lparr>getFullYear = 2023, getMonth = 0, getDate = 5, getHours = 7, getMinutes = 8,
            getSeconds = 9, getMilliseconds = 12\<rparr>;
       L = \<lparr> resource = f, donotUseFormatters = True, backupIndex = 6,
             initializePromise = Fulfilled, queue = [],
             fs = [f \<mapsto> ''fresh'', ''/logs/a.log_1'' \<mapsto> ''old''] \<rparr>;
       K = \<lparr> resource = f, donotUseFormatters = True, backupIndex = 1,
             initializePromise = Fulfilled, queue = [], fs = [f \<mapsto> ''m0''] \<rparr>;
       xs = [(d, Info, ''m1''), (d, Info, ''m2''), (d, Info, ''m3''), (d, Info, ''m4''),
             (d, Info, ''m5''), (d, Info, ''m6'')];
       K1 = run mem_service 1 (log_each (take (Suc 0) xs)) K;
       K6 = run mem_service 1 (log_each (take (Suc 5) xs)) K
   in (5::nat) < 6 \<and>
      rotations 6 (FileLogger_new f False (Map.empty :: URI \<rightharpoonup> string)) ! 5 = ''/logs/a.log_1'' \<and>
      rotations 6 (FileLogger_new f False (Map.empty :: URI \<rightharpoonup> string)) =
        [''/logs/a.log_1'', ''/logs/a.log_2'', ''/logs/a.log_3'', ''/logs/a.log_4'',
         ''/logs/a.log_5'', ''/logs/a.log_1''] \<and>
      1 \<le> backupIndex L \<and>
      (\<exists>slot. 1 \<le> slot \<and> slot \<le> 5 \<and>
         getBackupResource L =
           (joinPath (dirname (resource L)) (basename (resource L) @ ''_'' @ string_of_nat slot),
            L\<lparr>backupIndex := Suc slot\<rparr>)) \<and>
      initializePromise L = Fulfilled \<and> fs L (resource L) = Some ''fresh'' \<and>
      (4::nat) < length ''fresh'' \<and> fs L ''/logs/a.log_1'' = Some ''old'' \<and>
      (case log_task mem_service 4 d Info ''b'' L of
         None \<Rightarrow> False
       | Some (res, L') \<Rightarrow>
           res = Inr () \<and> fs L' ''/logs/a.log_1'' = Some ''fresh'' \<and> backupIndex L' = 2) \<and>
      initializePromise K = Fulfilled \<and> queue K = [] \<and> backupIndex K = 1 \<and>
      fs K (resource K) = Some ''m0'' \<and> (1::nat) < length ''m0'' \<and>
      list_all (\<lambda>x. 1 < length (snd (snd x))) xs \<and> 0 < length xs \<and> 5 < length xs \<and>
      fs K1 ''/logs/a.log_1'' = Some ''m0'' \<and> backupIndex K1 = 2 \<and> fs K1 f = Some ''m1'' \<and>
      fs K6 ''/logs/a.log_1'' = Some ''m5'' \<and> backupIndex K6 = 2 \<and> fs K6 f = Some ''m6'' \<and>
      queue K6 = [] \<and>
      fs K6 ''/logs/a.log_2'' = Some ''m1'' \<and> fs K6 ''/logs/a.log_3'' = Some ''m2'' \<and>
      fs K6 ''/logs/a.log_4'' = Some ''m3'' \<and> fs K6 ''/logs/a.log_5'' = Some ''m4''"
proof -
  let ?f = "''/logs/a.log''"
  let ?d = "\<lparr>getFullYear = 2023, getMonth = 0, getDate = 5, getHours = 7, getMinutes = 8,
            getSeconds = 9, getMilliseconds = 12\<rparr>"
  let ?L = "\<lparr> resource = ?f, donotUseFormatters = True, backupIndex = 6,
             initializePromise = Fulfilled, queue = [],
             fs = [?f \<mapsto> ''fresh'', ''/logs/a.log_1'' \<mapsto> ''old''] \<rparr>"
  let ?K = "\<lparr> resource = ?f, donotUseFormatters = True, backupIndex = 1,
             initializePromise = Fulfilled, queue = [], fs = [?f \<mapsto> ''m0''] \<rparr>"
  let ?xs = "[(?d, Info, ''m1''), (?d, Info, ''m2''), (?d, Info, ''m3''), (?d, Info, ''m4''),
             (?d, Info, ''m5''), (?d, Info, ''m6'')]"
  let ?K1 = "run mem_service 1 (log_each (take (Suc 0) ?xs)) ?K"
  let ?K6 = "run mem_service 1 (log_each (take (Suc 5) ?xs)) ?K"
  let ?new = "FileLogger_new ?f False (Map.empty :: URI \<rightharpoonup> string)"
  note cycle = backup_slot_cycle [where r = ?f and raw = False
      and s = "Map.empty :: URI \<rightharpoonup> string" and k = 5 and n = 6 and L = ?L
      and content = "''fresh''" and lim = 4 and now = ?d and level = Info and message = "''b''"
      and K = ?K and prior = "''m0''" and ceil = 1 and xs = ?xs]
  have dn: "joinPath (dirname ?f) (basename ?f @ sfx) = ?f @ sfx" for sfx
    by (simp add: joinPath_def dirname_def basename_def)
  have nm: "fst (getBackupResource ?L) = ''/logs/a.log_1''"
    by (simp add: getBackupResource_def Let_def dn string_of_nat.simps digit_char_def)
  have ix: "backupIndex (snd (getBackupResource ?L)) = 2"
    by (simp add: getBackupResource_def Let_def)
  have h_nth: "(5::nat) < 6" by simp
  have six: "rotations 6 ?new =
        [''/logs/a.log_1'', ''/logs/a.log_2'', ''/logs/a.log_3'', ''/logs/a.log_4'',
         ''/logs/a.log_5'', ''/logs/a.log_1'']"
    using cycle [where j = 0, THEN conjunct1] by (simp add: dn)
  have nth: "rotations 6 ?new ! 5 = ''/logs/a.log_1''"
    using cycle [where j = 0, THEN conjunct2, THEN conjunct1, THEN mp, OF h_nth]
    by (simp add: dn string_of_nat.simps digit_char_def)
  have h_idx: "1 \<le> backupIndex ?L" by simp
  note slot = cycle [where j = 0, THEN conjunct2, THEN conjunct2, THEN conjunct1, THEN mp,
      OF h_idx]
  have h_over: "initializePromise ?L = Fulfilled" "fs ?L (resource ?L) = Some ''fresh''"
    "(4::nat) < length ''fresh''" "fs ?L ''/logs/a.log_1'' = Some ''old''"
    by simp_all
  have over: "case log_task mem_service 4 ?d Info ''b'' ?L of
         None \<Rightarrow> False
       | Some (res, L') \<Rightarrow>
           res = Inr () \<and> fs L' ''/logs/a.log_1'' = Some ''fresh'' \<and> backupIndex L' = 2"
    using cycle [where j = 0, THEN conjunct2, THEN conjunct2, THEN conjunct2, THEN conjunct1,
        THEN mp, OF conjI [OF h_over(1) conjI [OF h_over(2) h_over(3)]]]
    unfolding nm ix .
  have h_K: "initializePromise ?K = Fulfilled" "queue ?K = []" "backupIndex ?K = 1"
    "fs ?K (resource ?K) = Some ''m0''" "(1::nat) < length ''m0''"
    by simp_all
  have h_xs: "\<forall>x\<in>set ?xs. 1 < length (snd (snd x))" by simp
  have h_all: "list_all (\<lambda>x. 1 < length (snd (snd x))) ?xs" by simp
  have h_j: "0 < length ?xs" "5 < length ?xs" by simp_all
  have hyp: "initializePromise ?K = Fulfilled \<and> queue ?K = [] \<and> backupIndex ?K = 1 \<and>
      fs ?K (resource ?K) = Some ''m0'' \<and> 1 < length ''m0'' \<and>
      (\<forall>x\<in>set ?xs. 1 < length (snd (snd x))) \<and> j < length ?xs" if "j < length ?xs" for j
    using h_K h_xs that by (intro conjI)
  have first: "fs ?K1 ''/logs/a.log_1'' = Some ''m0'' \<and> backupIndex ?K1 = 2 \<and>
      fs ?K1 ?f = Some ''m1''"
    using cycle [where j = 0, THEN conjunct2, THEN conjunct2, THEN conjunct2, THEN conjunct2,
        THEN mp, OF hyp [OF h_j(1)]]
    by (simp add: Let_def dn string_of_nat.simps digit_char_def entry_of_def entry_def)
  have sixth: "fs ?K6 ''/logs/a.log_1'' = Some ''m5'' \<and> backupIndex ?K6 = 2 \<and>
      fs ?K6 ?f = Some ''m6'' \<and> queue ?K6 = []"
    using cycle [where j = 5, THEN conjunct2, THEN conjunct2, THEN conjunct2, THEN conjunct2,
        THEN mp, OF hyp [OF h_j(2)]]
    by (simp add: Let_def dn string_of_nat.simps digit_char_def entry_of_def entry_def)
  have others: "fs ?K6 ''/logs/a.log_2'' = Some ''m1''" "fs ?K6 ''/logs/a.log_3'' = Some ''m2''"
    "fs ?K6 ''/logs/a.log_4'' = Some ''m3''" "fs ?K6 ''/logs/a.log_5'' = Some ''m4''"
    by (simp_all add: machine_defs log_each_def string_of_nat.simps digit_char_def)
  from h_nth nth six h_idx slot h_over over h_K h_all h_j first sixth others
  show ?thesis
    unfolding Let_def by (intro conjI) (erule conjunct1 conjunct2 | assumption | simp)+
qed

text \<open>
  Claim C4. With \<open>donotUseFormatters\<close> the entry is the message itself. Otherwise, for a
  date whose fields are in the ranges of a JavaScript \<open>Date\<close>, it is the year, two digits
  each for month, day, hours, minutes and seconds, three digits for the milliseconds, the
  level name in brackets, the message and a line feed; the year has four digits from 1000
  to 9999; the level name is the lower-case name of the level itself, trace, debug, info,
  warning or error, and empty for \<open>Off\<close>. A task that does not rotate appends exactly the entry, and logging \<open>x\<close> then
  \<open>y\<close> raw into a new file leaves \<open>xy\<close>.
\<close>

theorem log_entry_rendering:
  assumes "getMonth now < 12" and "getDate now < 32" and "getHours now < 24"
    and "getMinutes now < 60" and "getSeconds now < 60" and "getMilliseconds now < 1000"
  shows "entry True now level message = message \<and>
    entry False now level message =
      string_of_nat (getFullYear now) @ ''-'' @
      [digit_char ((getMonth now + 1) div 10), digit_char ((getMonth now + 1) mod 10)] @ ''-'' @
      [digit_char (getDate now div 10), digit_char (getDate now mod 10)] @ '' '' @
      [digit_char (getHours now div 10), digit_char (getHours now mod 10)] @ '':'' @
      [digit_char (getMinutes now div 10), digit_char (getMinutes now mod 10)] @ '':'' @
      [digit_char (getSeconds now div 10), digit_char (getSeconds now mod 10)] @ ''.'' @
      [digit_char (getMilliseconds now div 100), digit_char (getMilliseconds now div 10 mod 10),
       digit_char (getMilliseconds now mod 10)] @
      '' ['' @ stringifyLogLevel level @ ''] '' @ message @ [CHR 0x0A] \<and>
    (1000 \<le> getFullYear now \<and> getFullYear now < 10000 \<longrightarrow>
       string_of_nat (getFullYear now) =
         [digit_char (getFullYear now div 1000), digit_char (getFullYear now div 100 mod 10),
          digit_char (getFullYear now div 10 mod 10), digit_char (getFullYear now mod 10)]) \<and>
    stringifyLogLevel level \<in> set [''trace'', ''debug'', ''info'', ''warning'', ''error'', []] \<and>
    stringifyLogLevel Trace = ''trace'' \<and> stringifyLogLevel Debug = ''debug'' \<and>
    stringifyLogLevel Info = ''info'' \<and> stringifyLogLevel Warning = ''warning'' \<and>
    stringifyLogLevel Error = ''error'' \<and> stringifyLogLevel Off = [] \<and>
    (initializePromise L = Fulfilled \<and> length (content_of (fs L) (resource L)) \<le> lim \<longrightarrow>
       log_task mem_service lim now level message L =
         Some (Inr (), L\<lparr>fs := (fs L)(resource L \<mapsto>
                 content_of (fs L) (resource L) @
                 entry (donotUseFormatters L) now level message)\<rparr>)) \<and>
    fs (run mem_service MAX_FILE_SIZE
          [InitSettles, Log level ''x'', Run now, Log level ''y'', Run now]
          (FileLogger_new r True Map.empty)) r = Some ''xy''"
proof -
  have raw: "entry True now level message = message" by (simp add: entry_def)
  have fmt: "entry False now level message =
      string_of_nat (getFullYear now) @ ''-'' @
      [digit_char ((getMonth now + 1) div 10), digit_char ((getMonth now + 1) mod 10)] @ ''-'' @
      [digit_char (getDate now div 10), digit_char (getDate now mod 10)] @ '' '' @
      [digit_char (getHours now div 10), digit_char (getHours now mod 10)] @ '':'' @
      [digit_char (getMinutes now div 10), digit_char (getMinutes now mod 10)] @ '':'' @
      [digit_char (getSeconds now div 10), digit_char (getSeconds now mod 10)] @ ''.'' @
      [digit_char (getMilliseconds now div 100), digit_char (getMilliseconds now div 10 mod 10),
       digit_char (getMilliseconds now mod 10)] @
      '' ['' @ stringifyLogLevel level @ ''] '' @ message @ [CHR 0x0A]"
    by (simp add: entry_def getCurrentTimestamp_digits [OF assms])
  have year: "1000 \<le> getFullYear now \<and> getFullYear now < 10000 \<longrightarrow>
       string_of_nat (getFullYear now) =
         [digit_char (getFullYear now div 1000), digit_char (getFullYear now div 100 mod 10),
          digit_char (getFullYear now div 10 mod 10), digit_char (getFullYear now mod 10)]"
    by (simp add: string_of_nat_4)
  have off: "stringifyLogLevel Trace = ''trace'' \<and> stringifyLogLevel Debug = ''debug'' \<and>
    stringifyLogLevel Info = ''info'' \<and> stringifyLogLevel Warning = ''warning'' \<and>
    stringifyLogLevel Error = ''error'' \<and> stringifyLogLevel Off = []"
    by simp
  have task: "initializePromise L = Fulfilled \<and> length (content_of (fs L) (resource L)) \<le> lim \<longrightarrow>
       log_task mem_service lim now level message L =
         Some (Inr (), L\<lparr>fs := (fs L)(resource L \<mapsto>
                 content_of (fs L) (resource L) @
                 entry (donotUseFormatters L) now level message)\<rparr>)"
    by (simp add: mem_log_task)
  have xy: "fs (run mem_service MAX_FILE_SIZE
          [InitSettles, Log level ''x'', Run now, Log level ''y'', Run now]
          (FileLogger_new r True Map.empty)) r = Some ''xy''"
    by (simp add: loop_defs mem_log_task entry_def MAX_FILE_SIZE_def ByteSize_MB_def)
  from raw fmt year stringifyLogLevel_names [of level] off task xy show ?thesis by blast
qed

theorem log_entry_rendering_witness:
  "let now = \<lparr>getFullYear = 2023, getMonth = 0, getDate = 5, getHours = 7, getMinutes = 8,
              getSeconds = 9, getMilliseconds = 12\<rparr>
   in getMonth now < 12 \<and> getDate now < 32 \<and> getHours now < 24 \<and> getMinutes now < 60 \<and>
      getSeconds now < 60 \<and> getMilliseconds now < 1000 \<and>
      entry False now Warning ''disk is full'' =
        ''2023-01-05 07:08:09.012 [warning] disk is full'' @ [CHR 0x0A] \<and>
      entry False now Off ''m'' = ''2023-01-05 07:08:09.012 [] m'' @ [CHR 0x0A] \<and>
      entry False now Trace ''m'' = ''2023-01-05 07:08:09.012 [trace] m'' @ [CHR 0x0A] \<and>
      entry False now Debug ''m'' = ''2023-01-05 07:08:09.012 [debug] m'' @ [CHR 0x0A] \<and>
      entry False now Info ''m'' = ''2023-01-05 07:08:09.012 [info] m'' @ [CHR 0x0A] \<and>
      entry False now Error ''m'' = ''2023-01-05 07:08:09.012 [error] m'' @ [CHR 0x0A] \<and>
      entry True now Warning ''disk is full'' = ''disk is full''"
proof -
  let ?now = "\<lparr>getFullYear = 2023, getMonth = 0, getDate = 5, getHours = 7, getMinutes = 8,
              getSeconds = 9, getMilliseconds = 12\<rparr>"
  have h: "getMonth ?now < 12" "getDate ?now < 32" "getHours ?now < 24" "getMinutes ?now < 60"
    "getSeconds ?now < 60" "getMilliseconds ?now < 1000"
    by simp_all
  from log_entry_rendering [OF h, of Warning "''disk is full''"]
       log_entry_rendering [OF h, of Off "''m''"]
       log_entry_rendering [OF h, of Trace "''m''"]
       log_entry_rendering [OF h, of Debug "''m''"]
       log_entry_rendering [OF h, of Info "''m''"]
       log_entry_rendering [OF h, of Error "''m''"]
  show ?thesis
    unfolding Let_def by (simp add: digit_char_def)
qed

text \<open>
  Claim C5. When the read of the resource fails, with any error and for any file service,
  \<open>loadContent\<close> yields the empty string, nothing is rotated, and the task writes exactly
  the new entry to the resource: its outcome is the outcome of that write, so it fails only
  if the write itself fails, and where the write replaces the content the file then holds
  the new entry alone.
\<close>

theorem read_failure_resilience:
  assumes "initializePromise L = Fulfilled"
    and "readFile svc (resource L) (fs L) = (Inl e, s1)"
  shows "loadContent svc L = ([], L\<lparr>fs := s1\<rparr>) \<and>
     log_task svc lim now level message L =
       Some (fst (writeFile svc (resource L) (entry (donotUseFormatters L) now level message) s1),
             L\<lparr>fs := snd (writeFile svc (resource L)
                             (entry (donotUseFormatters L) now level message) s1)\<rparr>) \<and>
     (writeFile svc = mem_writeFile \<longrightarrow>
        log_task svc lim now level message L =
          Some (Inr (), L\<lparr>fs := s1(resource L \<mapsto> entry (donotUseFormatters L) now level message)\<rparr>))"
proof -
  have load: "loadContent svc L = ([], L\<lparr>fs := s1\<rparr>)"
    using assms(2) by (simp add: loadContent_def)
  have task: "log_task svc lim now level message L =
       Some (fst (writeFile svc (resource L) (entry (donotUseFormatters L) now level message) s1),
             L\<lparr>fs := snd (writeFile svc (resource L)
                             (entry (donotUseFormatters L) now level message) s1)\<rparr>)"
    using assms(1) by (simp add: log_task_def load rotate_def split: prod.split)
  have "writeFile svc = mem_writeFile \<longrightarrow>
        log_task svc lim now level message L =
          Some (Inr (), L\<lparr>fs := s1(resource L \<mapsto> entry (donotUseFormatters L) now level message)\<rparr>)"
    unfolding task by (simp add: mem_writeFile_def)
  with load task show ?thesis by blast
qed

theorem read_failure_resilience_witness:
  "let svc = mem_service\<lparr>readFile := \<lambda>r s. (Inl (OtherError ''EIO''), s)\<rparr>;
       L = \<lparr> resource = ''/logs/a.log'', donotUseFormatters = True, backupIndex = 1,
             initializePromise = Fulfilled, queue = [],
             fs = [''/logs/a.log'' \<mapsto> ''stale content that cannot be read''] \<rparr>
   in initializePromise L = Fulfilled \<and>
      readFile svc (resource L) (fs L) = (Inl (OtherError ''EIO''), fs L) \<and>
      writeFile svc = mem_writeFile \<and>
      (case log_task svc 4 \<lparr>getFullYear = 2023, getMonth = 0, getDate = 5, getHours = 7,
              getMinutes = 8, getSeconds = 9, getMilliseconds = 12\<rparr> Info ''fresh'' L of
         None \<Rightarrow> False
       | Some (res, L') \<Rightarrow>
           res = Inr () \<and> fs L' ''/logs/a.log'' = Some ''fresh'' \<and> backupIndex L' = 1)"
proof -
  let ?svc = "mem_service\<lparr>readFile := \<lambda>r s. (Inl (OtherError ''EIO''), s)\<rparr>"
  let ?L = "\<lparr> resource = ''/logs/a.log'', donotUseFormatters = True, backupIndex = 1,
             initializePromise = Fulfilled, queue = [],
             fs = [''/logs/a.log'' \<mapsto> ''stale content that cannot be read''] \<rparr>"
  have h1: "initializePromise ?L = Fulfilled" by simp
  have h2: "readFile ?svc (resource ?L) (fs ?L) = (Inl (OtherError ''EIO''), fs ?L)" by simp
  have h3: "writeFile ?svc = mem_writeFile" by (simp add: mem_service_def)
  from read_failure_resilience [OF h1 h2, of 4 _ Info "''fresh''"] h1 h2 h3 show ?thesis
    unfolding Let_def by (simp add: entry_def mem_writeFile_def)
qed

text \<open>
  Claim C6. \<open>initialize\<close> succeeds when the creation succeeds or fails with
  \<open>FILE_MODIFIED_SINCE\<close>, and fails with the error of the creation in every other case,
  which rejects \<open>initializePromise\<close>. On the in-memory store a second \<open>initialize\<close> never
  fails and leaves an existing file as it is. With a rejected promise every task, so also
  the first, is rejected with that error and changes nothing.
\<close>

theorem initialize_swallows_only_modified_since:
  "(createFile svc r s = (Inr u, s') \<longrightarrow> initialize svc r s = (Inr (), s')) \<and>
   (createFile svc r s = (Inl e, s') \<and> fileOperationResult e = Some FILE_MODIFIED_SINCE \<longrightarrow>
      initialize svc r s = (Inr (), s')) \<and>
   (createFile svc r s = (Inl e, s') \<and> fileOperationResult e \<noteq> Some FILE_MODIFIED_SINCE \<longrightarrow>
      initialize svc r s = (Inl e, s') \<and>
      initializePromise (settle svc (FileLogger_new r raw s)) = Rejected e) \<and>
   fst (initialize mem_service r (snd (initialize mem_service r files))) = Inr () \<and>
   (files r = Some c \<longrightarrow> initialize mem_service r files = (Inr (), files)) \<and>
   (initializePromise L = Rejected e \<longrightarrow>
      log_task svc lim now level message L = Some (Inl e, L))"
  by (auto simp: initialize_def settle_def FileLogger_new_def mem_createFile_def log_task_def
        split: option.splits)

theorem initialize_swallows_only_modified_since_witness:
  "let denied = mem_service\<lparr>createFile :=
                   \<lambda>r s. (Inl (FileOperationError FILE_PERMISSION_DENIED), s)\<rparr>;
       L = settle denied (log Info ''m'' (FileLogger_new ''/logs/a.log'' False Map.empty))
   in createFile denied ''/logs/a.log'' Map.empty =
        (Inl (FileOperationError FILE_PERMISSION_DENIED), Map.empty) \<and>
      fileOperationResult (FileOperationError FILE_PERMISSION_DENIED) \<noteq> Some FILE_MODIFIED_SINCE \<and>
      initialize denied ''/logs/a.log'' Map.empty =
        (Inl (FileOperationError FILE_PERMISSION_DENIED), Map.empty) \<and>
      initializePromise L = Rejected (FileOperationError FILE_PERMISSION_DENIED) \<and>
      log_task denied MAX_FILE_SIZE \<lparr>getFullYear = 2023, getMonth = 0, getDate = 5, getHours = 7,
          getMinutes = 8, getSeconds = 9, getMilliseconds = 12\<rparr> Info ''m'' L =
        Some (Inl (FileOperationError FILE_PERMISSION_DENIED), L) \<and>
      createFile mem_service ''/logs/a.log'' [''/logs/a.log'' \<mapsto> ''kept''] =
        (Inl (FileOperationError FILE_MODIFIED_SINCE), [''/logs/a.log'' \<mapsto> ''kept'']) \<and>
      fileOperationResult (FileOperationError FILE_MODIFIED_SINCE) = Some FILE_MODIFIED_SINCE \<and>
      initialize mem_service ''/logs/a.log'' [''/logs/a.log'' \<mapsto> ''kept''] =
        (Inr (), [''/logs/a.log'' \<mapsto> ''kept''])"
proof -
  let ?denied = "mem_service\<lparr>createFile :=
                   \<lambda>r s. (Inl (FileOperationError FILE_PERMISSION_DENIED), s)\<rparr>"
  let ?L = "settle ?denied (log Info ''m'' (FileLogger_new ''/logs/a.log'' False Map.empty))"
  let ?e = "FileOperationError FILE_PERMISSION_DENIED"
  have h1: "createFile ?denied ''/logs/a.log'' Map.empty = (Inl ?e, Map.empty)" by simp
  have h2: "fileOperationResult ?e \<noteq> Some FILE_MODIFIED_SINCE" by simp
  have h3: "initializePromise ?L = Rejected ?e"
    by (simp add: settle_def log_def FileLogger_new_def initialize_def)
  have h4: "createFile mem_service ''/logs/a.log'' [''/logs/a.log'' \<mapsto> ''kept''] =
        (Inl (FileOperationError FILE_MODIFIED_SINCE), [''/logs/a.log'' \<mapsto> ''kept''])"
    by (simp add: mem_createFile_def)
  have h5: "fileOperationResult (FileOperationError FILE_MODIFIED_SINCE) = Some FILE_MODIFIED_SINCE"
    by simp
  from initialize_swallows_only_modified_since
         [where svc = ?denied and r = "''/logs/a.log''" and s = Map.empty and e = ?e
            and s' = Map.empty and L = ?L and lim = MAX_FILE_SIZE and level = Info
            and message = "''m''"]
       initialize_swallows_only_modified_since
         [where svc = mem_service and r = "''/logs/a.log''"
            and s = "[''/logs/a.log'' \<mapsto> ''kept'']"
            and e = "FileOperationError FILE_MODIFIED_SINCE"
            and s' = "[''/logs/a.log'' \<mapsto> ''kept'']"]
       h1 h2 h3 h4 h5
  show ?thesis unfolding Let_def by simp
qed


section \<open>The claims about the channel clients\<close>

text \<open>
  Claim C7. A remote event changes the local directory through the mutations of the
  superclass and issues no call on the channel. Each of the overriding methods
  \<open>registerLogger\<close>, \<open>deregisterLogger\<close>, \<open>setLogLevel\<close> and \<open>setVisibility\<close> applies the
  mutation of the superclass and issues exactly one call, which forwards it. Over any
  sequence of remote events and local calls, the calls issued are those of the local calls,
  one each and in order.
\<close>

theorem remote_events_are_not_forwarded:
  "channel (on_remote_event base ev C) = channel C \<and>
   directory (on_remote_event base ev C) =
     foldl (\<lambda>d m. super_invoke base m d) (directory C) (mutations_of ev) \<and>
   directory (invoke base m C) = super_invoke base m (directory C) \<and>
   channel (invoke base m C) = channel C @ [forwarded (windowId C) m] \<and>
   channel (registerLogger base logger C) =
     channel C @ [Call ''registerLogger'' [LoggerResource logger, WindowId (windowId C)]] \<and>
   channel (deregisterLogger base r C) =
     channel C @ [Call ''deregisterLogger'' [Uri r, WindowId (windowId C)]] \<and>
   channel (setLogLevel base r logLevel C) =
     channel C @ [Call ''setLogLevel'' [Uri r, Level logLevel]] \<and>
   channel (setVisibility base r visibility C) =
     channel C @ [Call ''setVisibility'' [Uri r, Bool visibility]] \<and>
   channel (client_run base evs C) =
     channel C @ map (forwarded (windowId C)) (local_mutations evs) \<and>
   directory (client_run base evs C) =
     foldl (\<lambda>d m. super_invoke base m d) (directory C) (all_mutations evs)"
  by (simp add: on_remote_event_eq invoke_eq client_run_eq
        registerLogger_def deregisterLogger_def setLogLevel_def setVisibility_def)

text \<open>
  Claim C8. Messages logged before the \<open>createLogger\<close> call completes are held in the
  buffer in order and no \<open>log\<close> call is issued for them; the completion issues one
  \<open>log\<close> call with the whole buffer; each message logged afterwards is forwarded in a
  \<open>log\<close> call of its own and the buffer does not change any more; the messages carried by
  the \<open>log\<close> calls are those logged before followed by those logged after.
\<close>

theorem buffer_then_pass_through:
  "(let L1 = log_all pre (Logger_new ch f loggerOptions);
        L2 = createLogger_then L1;
        L3 = log_all post L2
    in calls L1 = ch @ [Call ''createLogger'' [Uri f, LoggerOptions loggerOptions]] \<and>
       buffer L1 = pre \<and> isLoggerCreated L1 = False \<and>
       calls L2 = calls L1 @ [Call ''log'' [Uri f, Messages pre]] \<and>
       isLoggerCreated L2 = True \<and>
       calls L3 = calls L2 @ map (\<lambda>m. Call ''log'' [Uri f, Messages [m]]) post \<and>
       buffer L3 = pre \<and> isLoggerCreated L3 = True \<and>
       delivered (calls L3) = delivered ch @ pre @ post)"
proof -
  let ?L0 = "Logger_new ch f loggerOptions"
  have L1: "log_all pre ?L0 = ?L0\<lparr>buffer := pre\<rparr>"
    by (simp add: log_all_before Logger_new_def)
  have L2: "isLoggerCreated (createLogger_then (?L0\<lparr>buffer := pre\<rparr>))"
    by (simp add: createLogger_then_def)
  show ?thesis
    unfolding Let_def L1 log_all_after [OF L2]
    by (simp add: createLogger_then_def doLog_def Logger_new_def delivered_append_other
          delivered_singles)
qed

text \<open>
  Claim C9. \<open>setLevel\<close> of a follower first sets the level of the wrapped log service and
  then issues the \<open>setLevel\<close> call on the channel of its parent; a level announced by the
  parent is set on the wrapped log service and not sent back. Over any sequence of both, the
  wrapped service ends at the level of the last one.
\<close>

theorem follower_sets_local_then_notifies:
  "FollowerLogService_setLevel x F =
     F\<lparr>logService_level := x,
       effects := effects F @
         [SetLocalLevel x, ParentCall (Call ''setLevel'' [Level x, Undefined])]\<rparr> \<and>
   parent_onDidChangeLogLevel x F =
     F\<lparr>logService_level := x, effects := effects F @ [SetLocalLevel x]\<rparr> \<and>
   effects (follower_run evs F) = effects F @ concat (map effects_of evs) \<and>
   logService_level (follower_run (evs @ [ev]) F) = level_of ev"
  by (simp add: follower_run_eq FollowerLogService_setLevel_def LogService_setLevel_def
        parent_onDidChangeLogLevel_def LogLevelChannelClient_setLevel_def Let_def)

text \<open>
  Claim C10. The completion of the \<open>createLogger\<close> call issues exactly one \<open>log\<close> call
  carrying the buffer, whatever the buffer holds: for a logger that has logged nothing it
  carries the empty list.
\<close>

theorem flush_is_unconditional:
  "calls (createLogger_then L) = calls L @ [Call ''log'' [Uri (fileURI L), Messages (buffer L)]] \<and>
   calls (createLogger_then (Logger_new ch f loggerOptions)) =
     ch @ [Call ''createLogger'' [Uri f, LoggerOptions loggerOptions],
           Call ''log'' [Uri f, Messages []]]"
  by (simp add: createLogger_then_def doLog_def Logger_new_def)

end
